theory Spec2Isabelle
  imports Main
begin

section \<open>The line buffer and its strings\<close>

text \<open>
  The shell of \<^verbatim>\<open>user/my_shell.c\<close> parses one line in place: the parser writes NUL
  bytes into the line buffer and the command tree keeps pointers into it. The buffer
  is modelled as the list of its bytes and a \<^verbatim>\<open>char*\<close> into it as the index of the
  byte it points to. The array is \<^verbatim>\<open>BUFFER_SIZE\<close> bytes that \<^verbatim>\<open>prompt_user\<close> zeroes
  before reading at most \<^verbatim>\<open>BUFFER_SIZE - 1\<close> of them, so its last byte is NUL. C leaves
  an access past the end of the array undefined; here such a read yields NUL (every scan
  stops at the end of the array at the latest) and such a write changes nothing. The
  theorems below assume a terminator inside the array, so no such access occurs in them.
\<close>

type_synonym memory = "char list"

text \<open>A pointer that may be \<^verbatim>\<open>NULL\<close>: \<open>None\<close> is \<^verbatim>\<open>NULL\<close>, \<open>Some i\<close> is \<^verbatim>\<open>buffer + i\<close>.\<close>

type_synonym pointer = "nat option"

definition BUFFER_SIZE :: nat where
  "BUFFER_SIZE = 128"

definition MAXIMUM_ARGUMENTS :: nat where
  "MAXIMUM_ARGUMENTS = 16"

definition NUL :: char where
  "NUL = CHR 0x00"

definition peek :: "memory \<Rightarrow> nat \<Rightarrow> char" where
  "peek mem p = (if p < length mem then mem ! p else NUL)"

definition poke :: "memory \<Rightarrow> nat \<Rightarrow> char \<Rightarrow> memory" where
  "poke mem p c = mem[p := c]"

text \<open>
  Modelled from the spec: \<^verbatim>\<open>strchr\<close> and \<^verbatim>\<open>strlen\<close> of \<^verbatim>\<open>user/ulib.c\<close>, which is not among
  the sources. \<^verbatim>\<open>strchr\<close> walks the string up to its terminator and returns the first
  position holding the character, \<^verbatim>\<open>NULL\<close> when there is none. The terminator itself is
  never found: the spec's separator characters are space, tab, carriage return, newline
  and vertical tab, so \<^verbatim>\<open>strchr(whitespace, 0)\<close> is \<^verbatim>\<open>NULL\<close> and every whitespace scan
  stops at the end of the string.
\<close>

function strchr :: "memory \<Rightarrow> nat \<Rightarrow> char \<Rightarrow> pointer" where
  "strchr mem s c =
     (if peek mem s = NUL then None
      else if peek mem s = c then Some s
      else strchr mem (s + 1) c)"
  by pat_completeness auto
termination
  by (relation "measure (\<lambda>(mem, s, c). length mem - s)")
     (auto simp: peek_def split: if_splits)

declare strchr.simps [simp del]

function strlen_from :: "memory \<Rightarrow> nat \<Rightarrow> nat \<Rightarrow> nat" where
  "strlen_from mem s n = (if peek mem (s + n) = NUL then n else strlen_from mem s (n + 1))"
  by pat_completeness auto
termination
  by (relation "measure (\<lambda>(mem, s, n). length mem - (s + n))")
     (auto simp: peek_def split: if_splits)

declare strlen_from.simps [simp del]

definition strlen :: "memory \<Rightarrow> nat \<Rightarrow> nat" where
  "strlen mem s = strlen_from mem s 0"

text \<open>
  \<^verbatim>\<open>strrchr\<close> of the shell itself: from the terminator at \<^verbatim>\<open>s + strlen(s)\<close> down to \<^verbatim>\<open>s\<close>,
  the first position holding the character. \<open>strrchr_down mem s k c\<close> is the loop with
  \<^verbatim>\<open>p_s_end = s + k\<close>; below \<^verbatim>\<open>s\<close> the loop ends and the result is \<^verbatim>\<open>NULL\<close>.
\<close>

fun strrchr_down :: "memory \<Rightarrow> nat \<Rightarrow> nat \<Rightarrow> char \<Rightarrow> pointer" where
  "strrchr_down mem s 0 c = (if peek mem s = c then Some s else None)"
| "strrchr_down mem s (Suc k) c =
     (if peek mem (s + Suc k) = c then Some (s + Suc k) else strrchr_down mem s k c)"

definition strrchr :: "memory \<Rightarrow> nat \<Rightarrow> char \<Rightarrow> pointer" where
  "strrchr mem s c = strrchr_down mem s (strlen mem s) c"

text \<open>The global \<^verbatim>\<open>char whitespace[6] = " \t\r\n\v"\<close>, an array of its own.\<close>

definition whitespace :: memory where
  "whitespace = [CHR '' '', CHR 0x09, CHR 0x0D, CHR 0x0A, CHR 0x0B, NUL]"

text \<open>The test \<^verbatim>\<open>strchr(whitespace, c) != NULL\<close>.\<close>

definition is_whitespace :: "char \<Rightarrow> bool" where
  "is_whitespace c = (strchr whitespace 0 c \<noteq> None)"

lemma is_whitespace_iff:
  "is_whitespace c \<longleftrightarrow>
     c = CHR '' '' \<or> c = CHR 0x09 \<or> c = CHR 0x0D \<or> c = CHR 0x0A \<or> c = CHR 0x0B"
  unfolding is_whitespace_def whitespace_def
  by (simp add: strchr.simps peek_def NUL_def)

lemma not_whitespace_NUL: "\<not> is_whitespace NUL"
  by (simp add: is_whitespace_iff NUL_def)

text \<open>The string a pointer points to: the bytes up to the terminator.\<close>

definition cstring :: "memory \<Rightarrow> nat \<Rightarrow> string" where
  "cstring mem p = takeWhile (\<lambda>c. c \<noteq> NUL) (drop p mem)"

section \<open>Processes\<close>

text \<open>
  What a process does, as the tree of its system calls: each call carries the
  continuation for every way it can return. \<^verbatim>\<open>exec\<close> returns only when the program
  could not be launched. The two descriptors of \<^verbatim>\<open>command_communication_pipe\<close> are
  named by their index.
\<close>

datatype descriptor = Std int | Pipe_End nat

text \<open>
  The argument vector that \<^verbatim>\<open>exec\<close> is handed: \<^verbatim>\<open>exec\<close> reads it up to its first \<^verbatim>\<open>NULL\<close>.
  \<open>Terminated args\<close>: a slot of the array is \<^verbatim>\<open>NULL\<close> and \<open>args\<close> are the strings before it.
  \<open>Unterminated args stores\<close>: no slot of the array is \<^verbatim>\<open>NULL\<close>, so that after the strings
  \<open>args\<close> of the slots \<^verbatim>\<open>exec\<close> reads on behind the array, where the program has made the
  stores \<open>stores\<close> (index and pointer) and has written nothing else.
\<close>

datatype exec_vector =
    Terminated "string list"
  | Unterminated "string list" "(nat \<times> nat option) list"

text \<open>
  Modelled from the spec: the open-mode flags of \<^verbatim>\<open>kernel/fcntl.h\<close>, which is not among the
  sources. A mode is the list of the flags joined by \<^verbatim>\<open>|\<close>.
\<close>

datatype open_flag = O_RDONLY | O_WRONLY | O_RDWR | O_CREATE | O_TRUNC

datatype process =
    Exit int
  | Write_Stderr string process
  | Exec string exec_vector process
  | Fork process process process
  | Wait process
  | Pipe process process
  | Close descriptor process
  | Dup descriptor process
  | Open string "open_flag list" process process

text \<open>\<^verbatim>\<open>error\<close>: the message and a newline to descriptor 2, then \<^verbatim>\<open>exit(1)\<close>.\<close>

definition error :: "string \<Rightarrow> process" where
  "error message = Write_Stderr (message @ [CHR 0x0A]) (Exit 1)"

text \<open>
  \<^verbatim>\<open>safe_fork\<close>: \<open>Fork child parent failed\<close> continues as \<open>child\<close> where \<^verbatim>\<open>fork\<close> returns 0,
  as \<open>parent\<close> where it returns a process id and as \<open>failed\<close> where it returns -1.
\<close>

definition safe_fork :: "process \<Rightarrow> process \<Rightarrow> process" where
  "safe_fork child parent = Fork child parent (error ''Failed fork'')"

section \<open>Commands\<close>

text \<open>
  The four command structures behind a \<^verbatim>\<open>Command*\<close>, with the \<^verbatim>\<open>NULL\<close> pointer and a
  structure whose type tag is none of the four, which \<^verbatim>\<open>run_command\<close> both tests for.
  An execute command holds the \<^verbatim>\<open>MAXIMUM_ARGUMENTS\<close> slots of \<^verbatim>\<open>argv\<close> and, apart from them,
  the stores made through \<^verbatim>\<open>argv[i]\<close> with \<open>i\<close> outside the array (index and pointer, in
  order): in the C program they land in the memory behind the structure. The file name
  of a redirection command is a pointer into the buffer, and so is every argument that
  is not \<^verbatim>\<open>NULL\<close>.
\<close>

datatype Command =
    Null_Command
  | Unknown_Command
  | Execute_Command (argv: "pointer list") (overrun: "(nat \<times> pointer) list")
  | List_Command Command Command
  | Pipe_Command Command Command
  | Redirection_Command Command nat "open_flag list" int

definition create_execute_command :: Command where
  "create_execute_command = Execute_Command (replicate MAXIMUM_ARGUMENTS None) []"

definition create_list_command :: "Command \<Rightarrow> Command \<Rightarrow> Command" where
  "create_list_command p_left_command p_right_command =
     List_Command p_left_command p_right_command"

definition create_pipe_command :: "Command \<Rightarrow> Command \<Rightarrow> Command" where
  "create_pipe_command p_left_command p_right_command =
     Pipe_Command p_left_command p_right_command"

definition create_redirection_command ::
  "Command \<Rightarrow> nat \<Rightarrow> open_flag list \<Rightarrow> int \<Rightarrow> Command" where
  "create_redirection_command p_command p_file_name file_mode file_descriptor =
     Redirection_Command p_command p_file_name file_mode file_descriptor"

text \<open>The assignment \<^verbatim>\<open>p_command->argv[i] = p\<close>.\<close>

fun store_argv :: "Command \<Rightarrow> nat \<Rightarrow> pointer \<Rightarrow> Command" where
  "store_argv (Execute_Command av ov) i p =
     (if i < MAXIMUM_ARGUMENTS then Execute_Command (av[i := p]) ov
      else Execute_Command av (ov @ [(i, p)]))"
| "store_argv command i p = command"

section \<open>The executor\<close>

text \<open>
  \<^verbatim>\<open>run_command\<close> reads its strings from the buffer as parsing left it. \<open>arguments mem av\<close>
  are the strings of the slots of \<^verbatim>\<open>argv\<close> before its first \<^verbatim>\<open>NULL\<close> slot. \<^verbatim>\<open>exec\<close> gets the
  program name (the array has \<^verbatim>\<open>MAXIMUM_ARGUMENTS\<close> slots, so slot 0 exists) and the
  array itself: where all its slots are occupied, nothing ends the vector inside the
  array. A \<^verbatim>\<open>break\<close> leads to the \<^verbatim>\<open>exit(0)\<close> that ends the function; after \<^verbatim>\<open>error\<close> and
  after a call of \<open>run_command\<close> itself, which do not return, nothing follows.
\<close>

definition arguments :: "memory \<Rightarrow> pointer list \<Rightarrow> string list" where
  "arguments mem av = map (\<lambda>p. cstring mem (the p)) (takeWhile (\<lambda>p. p \<noteq> None) av)"

definition exec_arguments ::
  "memory \<Rightarrow> pointer list \<Rightarrow> (nat \<times> pointer) list \<Rightarrow> exec_vector" where
  "exec_arguments mem av ov =
     (if list_ex (\<lambda>p. p = None) av then Terminated (arguments mem av)
      else Unterminated (arguments mem av) ov)"

fun run_command :: "memory \<Rightarrow> Command \<Rightarrow> process" where
  "run_command mem Null_Command = Exit 1"
| "run_command mem Unknown_Command = error ''Failed run command''"
| "run_command mem (Execute_Command av ov) =
     (case av ! 0 of
        None \<Rightarrow> Exit 1
      | Some p \<Rightarrow>
          Exec (cstring mem p) (exec_arguments mem av ov)
            (Write_Stderr (''Failed to execute '' @ cstring mem p @ [CHR 0x0A])
              (Exit 0)))"
| "run_command mem (List_Command p_left_command p_right_command) =
     safe_fork (run_command mem p_left_command)
       (Wait (run_command mem p_right_command))"
| "run_command mem (Pipe_Command p_left_command p_right_command) =
     Pipe
       (safe_fork
          (Close (Std 1) (Dup (Pipe_End 1) (Close (Pipe_End 0) (Close (Pipe_End 1)
             (run_command mem p_left_command)))))
          (safe_fork
             (Close (Std 0) (Dup (Pipe_End 0) (Close (Pipe_End 0) (Close (Pipe_End 1)
                (run_command mem p_right_command)))))
             (Close (Pipe_End 0) (Close (Pipe_End 1) (Wait (Wait (Exit 0)))))))
       (error ''Failed to open pipe'')"
| "run_command mem (Redirection_Command p_command p_file_name file_mode file_descriptor) =
     Close (Std file_descriptor)
       (Open (cstring mem p_file_name) file_mode
          (run_command mem p_command)
          (Write_Stderr (''Failed to open file '' @ cstring mem p_file_name @ [CHR 0x0A])
             (Exit 1)))"

section \<open>The parser\<close>

text \<open>The loop \<^verbatim>\<open>while (strchr(whitespace, buffer[0]) != NULL) buffer++;\<close>.\<close>

function skip_whitespace :: "memory \<Rightarrow> nat \<Rightarrow> nat" where
  "skip_whitespace mem buffer =
     (if is_whitespace (peek mem buffer) then skip_whitespace mem (buffer + 1) else buffer)"
  by pat_completeness auto
termination
  by (relation "measure (\<lambda>(mem, buffer). length mem - buffer)")
     (auto simp: peek_def not_whitespace_NUL split: if_splits)

declare skip_whitespace.simps [simp del]

lemma skip_whitespace_ge: "buffer \<le> skip_whitespace mem buffer"
proof (induction mem buffer rule: skip_whitespace.induct)
  case (1 mem buffer)
  show ?case
  proof (cases "is_whitespace (peek mem buffer)")
    case True
    with 1 show ?thesis by (subst skip_whitespace.simps) simp
  next
    case False
    then show ?thesis by (subst skip_whitespace.simps) simp
  qed
qed

text \<open>
  The argument loop of \<^verbatim>\<open>parse_execute\<close>, from its test \<^verbatim>\<open>argi < MAXIMUM_ARGUMENTS\<close>; the
  result is the buffer and the command as the loop leaves them.
\<close>

function execute_loop :: "memory \<Rightarrow> nat \<Rightarrow> nat \<Rightarrow> Command \<Rightarrow> memory \<times> Command" where
  "execute_loop mem buffer argi p_command =
     (if argi < MAXIMUM_ARGUMENTS then
        if peek mem buffer = NUL then (mem, p_command)
        else if is_whitespace (peek mem buffer) then
          (let mem1 = poke mem buffer NUL;
               buffer1 = skip_whitespace mem1 (buffer + 1)
           in if peek mem1 buffer1 = NUL then (mem1, p_command)
              else execute_loop mem1 buffer1 (argi + 1)
                     (store_argv p_command (argi + 1) (Some buffer1)))
        else execute_loop mem (buffer + 1) argi p_command
      else (mem, p_command))"
  by pat_completeness auto
termination
proof (relation "measure (\<lambda>(mem, buffer, argi, p_command). length mem - buffer)", goal_cases)
  case 1
  show ?case by simp
next
  case (2 mem buffer argi p_command mem1 buffer1)
  have "buffer < length mem"
    using 2(2) by (auto simp: peek_def split: if_splits)
  moreover have "buffer + 1 \<le> buffer1"
    using 2(5) skip_whitespace_ge[of "buffer + 1" mem1] by simp
  moreover have "length mem1 = length mem"
    using 2(4) by (simp add: poke_def)
  ultimately show ?case by simp
next
  case (3 mem buffer argi p_command)
  then show ?case by (auto simp: peek_def split: if_splits)
qed

declare execute_loop.simps [simp del]

definition parse_execute :: "memory \<Rightarrow> nat \<Rightarrow> memory \<times> Command" where
  "parse_execute mem buffer =
     (let buffer0 = skip_whitespace mem buffer;
          p_command = create_execute_command
      in if peek mem buffer0 = NUL then (mem, p_command)
         else execute_loop mem buffer0 0 (store_argv p_command 0 (Some buffer0)))"

text \<open>The loop \<^verbatim>\<open>while (strchr(whitespace, *buffer) == NULL && *buffer != NULL) buffer++;\<close>.\<close>

function skip_file_name :: "memory \<Rightarrow> nat \<Rightarrow> nat" where
  "skip_file_name mem buffer =
     (if \<not> is_whitespace (peek mem buffer) \<and> peek mem buffer \<noteq> NUL
      then skip_file_name mem (buffer + 1) else buffer)"
  by pat_completeness auto
termination
  by (relation "measure (\<lambda>(mem, buffer). length mem - buffer)")
     (auto simp: peek_def split: if_splits)

declare skip_file_name.simps [simp del]

text \<open>
  A parsing function either ends the process (\<^verbatim>\<open>error\<close>: the left injection holds what
  the process does from there) or returns its result with the buffer as it left it.
\<close>

definition parse_redirection_file_name :: "memory \<Rightarrow> nat \<Rightarrow> process + (memory \<times> nat)" where
  "parse_redirection_file_name mem buffer =
     (let buffer0 = skip_whitespace mem buffer;
          output = buffer0;
          buffer1 = skip_file_name mem buffer0;
          mem1 = poke mem buffer1 NUL
      in if peek mem1 output = NUL
         then Inl (error ''Failed to parse filename for redirection'')
         else Inr (mem1, output))"

text \<open>
  The sequencing of two parsing steps: the second runs on the result of the first unless
  the first ended the process (or reached the bound on the depth of the calls, below).
\<close>

definition and_then ::
  "(process + 'a) option \<Rightarrow> ('a \<Rightarrow> (process + 'b) option) \<Rightarrow> (process + 'b) option" where
  "and_then r f = (case r of None \<Rightarrow> None | Some (Inl halt) \<Rightarrow> Some (Inl halt) | Some (Inr x) \<Rightarrow> f x)"

text \<open>
  \<^verbatim>\<open>parse_command\<close> and the three functions it calls and that call it back. The first
  argument bounds the depth of the calls: \<open>None\<close> says that the bound was reached, and
  \<open>parse_command_refines\<close> below shows that a bound above the length of the line never is.
\<close>

function (sequential) parse_command :: "nat \<Rightarrow> memory \<Rightarrow> nat \<Rightarrow> (process + (memory \<times> Command)) option"
  and parse_list :: "nat \<Rightarrow> memory \<Rightarrow> nat \<Rightarrow> nat \<Rightarrow> (process + (memory \<times> Command)) option"
  and parse_pipe :: "nat \<Rightarrow> memory \<Rightarrow> nat \<Rightarrow> nat \<Rightarrow> (process + (memory \<times> Command)) option"
  and parse_redirection ::
    "nat \<Rightarrow> memory \<Rightarrow> nat \<Rightarrow> nat \<Rightarrow> (process + (memory \<times> Command)) option"
where
  "parse_command 0 mem buffer = None"
| "parse_command (Suc n) mem buffer =
     (if strchr mem buffer CHR '';'' \<noteq> None
      then parse_list n mem buffer (the (strchr mem buffer CHR '';''))
      else if strchr mem buffer CHR ''|'' \<noteq> None
      then parse_pipe n mem buffer (the (strchr mem buffer CHR ''|''))
      else if strrchr mem buffer CHR ''>'' \<noteq> None \<and> strrchr mem buffer CHR ''<'' = None
      then parse_redirection n mem buffer (the (strrchr mem buffer CHR ''>''))
      else if strrchr mem buffer CHR ''<'' \<noteq> None \<and> strrchr mem buffer CHR ''>'' = None
      then parse_redirection n mem buffer (the (strrchr mem buffer CHR ''<''))
      else if strrchr mem buffer CHR ''>'' \<noteq> None \<and> strrchr mem buffer CHR ''<'' \<noteq> None
      then
        (let p_redirection_right = the (strrchr mem buffer CHR ''>'');
             p_redirection_left = the (strrchr mem buffer CHR ''<'')
         in if p_redirection_right < p_redirection_left
            then parse_redirection n mem buffer (the (strrchr mem buffer CHR ''<''))
            else parse_redirection n mem buffer (the (strrchr mem buffer CHR ''>'')))
      else Some (Inr (parse_execute mem buffer)))"
| "parse_list n mem buffer p_split =
     and_then (parse_command n (poke mem p_split NUL) buffer)
       (\<lambda>(mem1, p_left_command).
     and_then (parse_command n mem1 (p_split + 1))
       (\<lambda>(mem2, p_right_command).
          Some (Inr (mem2, create_list_command p_left_command p_right_command))))"
| "parse_pipe n mem buffer p_split =
     and_then (parse_command n (poke mem p_split NUL) buffer)
       (\<lambda>(mem1, p_left_command).
     and_then (parse_command n mem1 (p_split + 1))
       (\<lambda>(mem2, p_right_command).
          Some (Inr (mem2, create_pipe_command p_left_command p_right_command))))"
| "parse_redirection n mem buffer p_split =
     (let direction = peek mem p_split in
      and_then (parse_command n (poke mem p_split NUL) buffer)
        (\<lambda>(mem1, p_redirection_command).
      and_then (Some (parse_redirection_file_name mem1 (p_split + 1)))
        (\<lambda>(mem2, p_redirection_file_name).
           if direction = CHR ''<''
           then Some (Inr (mem2, create_redirection_command
                  p_redirection_command p_redirection_file_name [O_RDONLY] 0))
           else Some (Inr (mem2, create_redirection_command
                  p_redirection_command p_redirection_file_name [O_WRONLY, O_CREATE] 1)))))"
  by pat_completeness auto
termination
  by (relation "measure (\<lambda>x. case x of
        Inl (Inl (n, mem, buffer)) \<Rightarrow> 2 * n
      | Inl (Inr (n, mem, buffer, p_split)) \<Rightarrow> 2 * n + 1
      | Inr (Inl (n, mem, buffer, p_split)) \<Rightarrow> 2 * n + 1
      | Inr (Inr (n, mem, buffer, p_split)) \<Rightarrow> 2 * n + 1)") auto

text \<open>
  The child of \<^verbatim>\<open>main\<close>, \<^verbatim>\<open>run_command(parse_command(buffer))\<close>: what the process does for
  the line in the buffer.
\<close>

definition shell_child :: "nat \<Rightarrow> memory \<Rightarrow> process option" where
  "shell_child n mem =
     (case parse_command n mem 0 of
        None \<Rightarrow> None
      | Some (Inl halt) \<Rightarrow> Some halt
      | Some (Inr (mem1, p_command)) \<Rightarrow> Some (run_command mem1 p_command))"

section \<open>Strings stored in the buffer\<close>

text \<open>
  \<open>holds mem p s\<close>: the bytes of \<open>s\<close>, none of them NUL, stand at \<open>p\<close> and a NUL follows
  them, all inside the array. \<open>same_outside mem mem' lo hi\<close>: the two buffers differ at
  most at the positions from \<open>lo\<close> up to \<open>hi\<close>, the latter excluded.
\<close>

definition holds :: "memory \<Rightarrow> nat \<Rightarrow> string \<Rightarrow> bool" where
  "holds mem p s \<longleftrightarrow> take (Suc (length s)) (drop p mem) = s @ [NUL] \<and> NUL \<notin> set s"

definition same_outside :: "memory \<Rightarrow> memory \<Rightarrow> nat \<Rightarrow> nat \<Rightarrow> bool" where
  "same_outside mem mem' lo hi \<longleftrightarrow>
     length mem' = length mem \<and> take lo mem' = take lo mem \<and> drop hi mem' = drop hi mem"

section \<open>The arguments of a line\<close>

text \<open>
  The tokens of a line as the specification describes them: leading separators are
  skipped, then each token is a longest run of characters that are not separators.
  \<open>token_starts p s\<close> are the positions of the tokens of \<open>s\<close> when \<open>s\<close> stands at \<open>p\<close>, and
  \<open>stores command i ps\<close> is the command after the stores \<^verbatim>\<open>argv[i] = p\<close>, \<^verbatim>\<open>argv[i + 1] = \<close>...
  that the argument loop makes for them: after a store at index \<^verbatim>\<open>MAXIMUM_ARGUMENTS\<close> the
  loop test fails.
\<close>

function tokens :: "string \<Rightarrow> string list" where
  "tokens s =
     (case dropWhile is_whitespace s of
        [] \<Rightarrow> []
      | c # r \<Rightarrow> (c # takeWhile (\<lambda>x. \<not> is_whitespace x) r)
                 # tokens (dropWhile (\<lambda>x. \<not> is_whitespace x) r))"
  by pat_completeness auto
termination
proof (relation "measure length", goal_cases)
  case 1
  show ?case by simp
next
  case (2 s c r)
  have "length (dropWhile (\<lambda>x. \<not> is_whitespace x) r) \<le> length r"
    by (rule length_dropWhile_le)
  moreover have "length (c # r) \<le> length s"
    using length_dropWhile_le[of is_whitespace s] 2 by simp
  ultimately show ?case by simp
qed

declare tokens.simps [simp del]

function token_starts :: "nat \<Rightarrow> string \<Rightarrow> nat list" where
  "token_starts p s =
     (case dropWhile is_whitespace s of
        [] \<Rightarrow> []
      | c # r \<Rightarrow>
          (p + length (takeWhile is_whitespace s))
          # token_starts (p + length (takeWhile is_whitespace s) + 1
                           + length (takeWhile (\<lambda>x. \<not> is_whitespace x) r))
              (dropWhile (\<lambda>x. \<not> is_whitespace x) r))"
  by pat_completeness auto
termination
proof (relation "measure (\<lambda>(p, s). length s)", goal_cases)
  case 1
  show ?case by simp
next
  case (2 p s c r)
  have "length (dropWhile (\<lambda>x. \<not> is_whitespace x) r) \<le> length r"
    by (rule length_dropWhile_le)
  moreover have "length (c # r) \<le> length s"
    using length_dropWhile_le[of is_whitespace s] 2 by simp
  ultimately show ?case by simp
qed

declare token_starts.simps [simp del]

fun stores :: "Command \<Rightarrow> nat \<Rightarrow> nat list \<Rightarrow> Command" where
  "stores command i [] = command"
| "stores command i (p # ps) =
     (if i \<le> MAXIMUM_ARGUMENTS then stores (store_argv command i (Some p)) (Suc i) ps
      else command)"

section \<open>The parser as a function on strings\<close>

text \<open>
  The command tree with its strings read out of the buffer, and the parser as a function
  from the text of a line to such a tree: \<open>parse_line\<close> splits at the first \<^verbatim>\<open>;\<close>, else at the
  first \<^verbatim>\<open>|\<close>, else at the last redirection symbol, and \<open>parse_command_refines\<close> shows that
  \<open>parse_command\<close> computes it on every line held in the buffer.
\<close>

datatype command_tree =
    Execute "string list"
  | Sequence command_tree command_tree
  | Pipeline command_tree command_tree
  | Redirect command_tree string "open_flag list" int

fun tree_of :: "memory \<Rightarrow> Command \<Rightarrow> command_tree option" where
  "tree_of mem Null_Command = None"
| "tree_of mem Unknown_Command = None"
| "tree_of mem (Execute_Command av ov) = Some (Execute (arguments mem av))"
| "tree_of mem (List_Command l r) =
     (case tree_of mem l of None \<Rightarrow> None | Some a \<Rightarrow>
        (case tree_of mem r of None \<Rightarrow> None | Some b \<Rightarrow> Some (Sequence a b)))"
| "tree_of mem (Pipe_Command l r) =
     (case tree_of mem l of None \<Rightarrow> None | Some a \<Rightarrow>
        (case tree_of mem r of None \<Rightarrow> None | Some b \<Rightarrow> Some (Pipeline a b)))"
| "tree_of mem (Redirection_Command c f m d) =
     (case tree_of mem c of None \<Rightarrow> None | Some a \<Rightarrow> Some (Redirect a (cstring mem f) m d))"

text \<open>
  The offsets of the first and of the last occurrence of a character in a text, and the
  offset at which \<open>parse_command\<close> splits a text with redirection symbols.
\<close>

fun find_first :: "string \<Rightarrow> char \<Rightarrow> nat option" where
  "find_first [] c = None"
| "find_first (x # xs) c = (if x = c then Some 0 else map_option Suc (find_first xs c))"

fun find_last :: "string \<Rightarrow> char \<Rightarrow> nat option" where
  "find_last [] c = None"
| "find_last (x # xs) c =
     (case find_last xs c of
        Some i \<Rightarrow> Some (Suc i)
      | None \<Rightarrow> if x = c then Some 0 else None)"

definition last_redirection :: "string \<Rightarrow> nat option" where
  "last_redirection s =
     (case (find_last s CHR ''>'', find_last s CHR ''<'') of
        (Some i, Some j) \<Rightarrow> Some (max i j)
      | (Some i, None) \<Rightarrow> Some i
      | (None, Some j) \<Rightarrow> Some j
      | (None, None) \<Rightarrow> None)"

text \<open>
  The results of two parts put together, the first fatal error winning; and a redirection
  of the result of the inner text to the first token of the text after the symbol.
\<close>

definition join ::
  "(command_tree \<Rightarrow> command_tree \<Rightarrow> command_tree) \<Rightarrow>
   process + command_tree \<Rightarrow> process + command_tree \<Rightarrow> process + command_tree" where
  "join mk l r =
     (case l of Inl halt \<Rightarrow> Inl halt | Inr a \<Rightarrow>
        (case r of Inl halt \<Rightarrow> Inl halt | Inr b \<Rightarrow> Inr (mk a b)))"

definition redirect ::
  "char \<Rightarrow> process + command_tree \<Rightarrow> string list \<Rightarrow> process + command_tree" where
  "redirect direction inner file_tokens =
     (case inner of Inl halt \<Rightarrow> Inl halt | Inr a \<Rightarrow>
        (case file_tokens of
           [] \<Rightarrow> Inl (error ''Failed to parse filename for redirection'')
         | f # _ \<Rightarrow>
             if direction = CHR ''<'' then Inr (Redirect a f [O_RDONLY] 0)
             else Inr (Redirect a f [O_WRONLY, O_CREATE] 1)))"

lemma find_first_less: "find_first s c = Some i \<Longrightarrow> i < length s"
  by (induction s arbitrary: i) (auto split: if_splits)

lemma find_last_less: "find_last s c = Some i \<Longrightarrow> i < length s"
  by (induction s arbitrary: i) (auto split: if_splits option.splits)

lemma last_redirection_less: "last_redirection s = Some i \<Longrightarrow> i < length s"
  by (auto simp: last_redirection_def max_def dest: find_last_less split: option.splits if_splits)

lemma the_find_first_less: "find_first s c \<noteq> None \<Longrightarrow> the (find_first s c) < length s"
  using find_first_less by fastforce

lemma the_last_redirection_less:
  "last_redirection s \<noteq> None \<Longrightarrow> the (last_redirection s) < length s"
  using last_redirection_less by fastforce

function parse_line :: "string \<Rightarrow> process + command_tree" where
  "parse_line s =
     (if find_first s CHR '';'' \<noteq> None then
        join Sequence (parse_line (take (the (find_first s CHR '';'')) s))
                      (parse_line (drop (Suc (the (find_first s CHR '';''))) s))
      else if find_first s CHR ''|'' \<noteq> None then
        join Pipeline (parse_line (take (the (find_first s CHR ''|'')) s))
                      (parse_line (drop (Suc (the (find_first s CHR ''|''))) s))
      else if last_redirection s \<noteq> None then
        redirect (s ! the (last_redirection s))
          (parse_line (take (the (last_redirection s)) s))
          (tokens (drop (Suc (the (last_redirection s))) s))
      else Inr (Execute (take MAXIMUM_ARGUMENTS (tokens s))))"
  by pat_completeness auto
termination
proof (relation "measure length", goal_cases)
  case 1
  show ?case by simp
next
  case (2 s)
  then show ?case using the_find_first_less[of s "CHR '';''"] by simp
next
  case (3 s)
  then show ?case using the_find_first_less[of s "CHR '';''"] by simp
next
  case (4 s)
  then show ?case using the_find_first_less[of s "CHR ''|''"] by simp
next
  case (5 s)
  then show ?case using the_find_first_less[of s "CHR ''|''"] by simp
next
  case (6 s)
  then show ?case using the_last_redirection_less[of s] by simp
qed

declare parse_line.simps [simp del]

text \<open>
  \<open>refines mem b s res\<close>: the result \<open>res\<close> of parsing the text \<open>s\<close> held at \<open>b\<close> in \<open>mem\<close> is
  what \<open>parse_line s\<close> says. A fatal error is the same error; a returned command has left
  the buffer unchanged outside the text, and read out of any buffer that agrees with the
  returned one up to the terminator of the text it is the tree of \<open>parse_line s\<close>.
\<close>

definition refines :: "memory \<Rightarrow> nat \<Rightarrow> string \<Rightarrow> process + memory \<times> Command \<Rightarrow> bool" where
  "refines mem b s res \<longleftrightarrow>
     (case res of
        Inl halt \<Rightarrow> parse_line s = Inl halt
      | Inr (mem', cmd) \<Rightarrow>
          same_outside mem mem' b (b + length s) \<and>
          (\<exists>t. parse_line s = Inr t \<and>
             (\<forall>m. take (Suc (b + length s)) m = take (Suc (b + length s)) mem'
                  \<longrightarrow> tree_of m cmd = Some t)))"

text \<open>A text without operators.\<close>

definition plain :: "string \<Rightarrow> bool" where
  "plain s \<longleftrightarrow>
     CHR '';'' \<notin> set s \<and> CHR ''|'' \<notin> set s \<and> CHR ''>'' \<notin> set s \<and> CHR ''<'' \<notin> set s"

section \<open>Lemmas\<close>

lemma holds_Nil: "holds mem p [] \<longleftrightarrow> p < length mem \<and> mem ! p = NUL"
proof (cases "p < length mem")
  case True
  then have "drop p mem = mem ! p # drop (Suc p) mem"
    by (simp add: Cons_nth_drop_Suc)
  then show ?thesis using True by (auto simp: holds_def)
next
  case False
  then show ?thesis by (simp add: holds_def)
qed

lemma holds_Cons:
  "holds mem p (c # s) \<longleftrightarrow> p < length mem \<and> mem ! p = c \<and> c \<noteq> NUL \<and> holds mem (Suc p) s"
proof (cases "p < length mem")
  case True
  then have "drop p mem = mem ! p # drop (Suc p) mem"
    by (simp add: Cons_nth_drop_Suc)
  then show ?thesis using True by (auto simp: holds_def)
next
  case False
  then show ?thesis by (simp add: holds_def)
qed

lemma holds_bound: "holds mem p s \<Longrightarrow> p + length s < length mem"
proof (induction s arbitrary: p)
  case Nil
  then show ?case by (simp add: holds_Nil)
next
  case (Cons c s)
  then show ?case using Cons.IH[of "Suc p"] by (simp add: holds_Cons)
qed

lemma holds_append: "holds mem p (l @ r) \<Longrightarrow> holds mem (p + length l) r"
proof (induction l arbitrary: p)
  case Nil
  then show ?case by simp
next
  case (Cons c l)
  then show ?case using Cons.IH[of "Suc p"] by (simp add: holds_Cons)
qed

lemma holds_peek: "holds mem p s \<Longrightarrow> i < length s \<Longrightarrow> peek mem (p + i) = s ! i"
proof (induction s arbitrary: p i)
  case Nil
  then show ?case by simp
next
  case (Cons c s)
  show ?case
  proof (cases i)
    case 0
    with Cons.prems show ?thesis by (simp add: holds_Cons peek_def)
  next
    case (Suc j)
    with Cons.prems Cons.IH[of "Suc p" j] show ?thesis by (simp add: holds_Cons)
  qed
qed

lemma holds_peek_end: "holds mem p s \<Longrightarrow> peek mem (p + length s) = NUL"
  using holds_append[of mem p s "[]"] by (simp add: holds_Nil peek_def)

lemma holds_peek_hd: "holds mem p (c # s) \<Longrightarrow> peek mem p = c"
  by (simp add: holds_Cons peek_def)

lemma holds_peek_Nil: "holds mem p [] \<Longrightarrow> peek mem p = NUL"
  by (simp add: holds_Nil peek_def)

lemma holds_cstring: "holds mem p s \<Longrightarrow> cstring mem p = s"
proof (induction s arbitrary: p)
  case Nil
  then show ?case
    by (cases "drop p mem") (auto simp: holds_def cstring_def take_Suc)
next
  case (Cons c s)
  then have "drop p mem = c # drop (Suc p) mem" "c \<noteq> NUL" "holds mem (Suc p) s"
    by (auto simp: holds_Cons Cons_nth_drop_Suc)
  with Cons.IH[of "Suc p"] show ?case by (simp add: cstring_def)
qed

lemma strchr_absent: "holds mem p s \<Longrightarrow> c \<notin> set s \<Longrightarrow> strchr mem p c = None"
proof (induction s arbitrary: p)
  case Nil
  then show ?case by (subst strchr.simps) (simp add: holds_peek_Nil)
next
  case (Cons a s)
  then have "peek mem p = a" "a \<noteq> NUL" "a \<noteq> c" "holds mem (Suc p) s"
    by (auto simp: holds_Cons peek_def)
  with Cons show ?case by (subst strchr.simps) simp
qed

lemma strchr_first:
  "holds mem p (l @ c # r) \<Longrightarrow> c \<notin> set l \<Longrightarrow> strchr mem p c = Some (p + length l)"
proof (induction l arbitrary: p)
  case Nil
  then show ?case by (subst strchr.simps) (simp add: holds_Cons peek_def)
next
  case (Cons a l)
  then have "peek mem p = a" "a \<noteq> NUL" "a \<noteq> c" "holds mem (Suc p) (l @ c # r)"
    by (auto simp: holds_Cons peek_def)
  with Cons show ?case by (subst strchr.simps) simp
qed

lemma strlen_from_holds: "holds mem (p + k) s \<Longrightarrow> strlen_from mem p k = k + length s"
proof (induction s arbitrary: k)
  case Nil
  then show ?case by (subst strlen_from.simps) (simp add: holds_peek_Nil)
next
  case (Cons a s)
  then have "peek mem (p + k) = a" "a \<noteq> NUL" "holds mem (p + (k + 1)) s"
    by (auto simp: holds_Cons peek_def)
  with Cons.IH[of "k + 1"] show ?case by (subst strlen_from.simps) simp
qed

lemma strlen_holds: "holds mem p s \<Longrightarrow> strlen mem p = length s"
  using strlen_from_holds[of mem p 0 s] by (simp add: strlen_def)

lemma strrchr_down_hit: "peek mem (s + k) = c \<Longrightarrow> strrchr_down mem s k c = Some (s + k)"
  by (cases k) auto

lemma strrchr_down_skip:
  "k \<le> m \<Longrightarrow> (\<And>i. k < i \<Longrightarrow> i \<le> m \<Longrightarrow> peek mem (s + i) \<noteq> c) \<Longrightarrow>
   strrchr_down mem s m c = strrchr_down mem s k c"
proof (induction m)
  case 0
  then show ?case by simp
next
  case (Suc m)
  show ?case
  proof (cases "k = Suc m")
    case True
    then show ?thesis by simp
  next
    case False
    with Suc.prems have "k \<le> m" by simp
    moreover have "peek mem (s + Suc m) \<noteq> c" using Suc.prems(2)[of "Suc m"] False Suc.prems(1) by simp
    ultimately show ?thesis using Suc by simp
  qed
qed

lemma strrchr_down_miss:
  "(\<And>i. i \<le> m \<Longrightarrow> peek mem (s + i) \<noteq> c) \<Longrightarrow> strrchr_down mem s m c = None"
proof (induction m)
  case 0
  then show ?case using 0[of 0] by simp
next
  case (Suc m)
  have "peek mem (s + Suc m) \<noteq> c" using Suc.prems[of "Suc m"] by simp
  moreover have "strrchr_down mem s m c = None" by (rule Suc.IH) (simp add: Suc.prems)
  ultimately show ?case by simp
qed

lemma holds_peek_all:
  "holds mem p s \<Longrightarrow> i \<le> length s \<Longrightarrow> peek mem (p + i) = (s @ [NUL]) ! i"
  by (cases "i < length s") (auto simp: holds_peek holds_peek_end nth_append)

lemma holds_not_NUL: "holds mem p s \<Longrightarrow> NUL \<notin> set s"
  by (simp add: holds_def)

lemma strrchr_last:
  assumes "holds mem p (l @ c # r)" "c \<notin> set r"
  shows "strrchr mem p c = Some (p + length l)"
proof -
  let ?s = "l @ c # r"
  have len: "strlen mem p = length ?s" using assms(1) by (rule strlen_holds)
  have c: "c \<noteq> NUL" using holds_not_NUL[OF assms(1)] by auto
  have miss: "peek mem (p + i) \<noteq> c" if "length l < i" "i \<le> length ?s" for i
  proof -
    have "peek mem (p + i) = (?s @ [NUL]) ! i" using holds_peek_all[OF assms(1) that(2)] .
    also have "\<dots> = (r @ [NUL]) ! (i - Suc (length l))"
      using that by (simp add: nth_append nth_Cons')
    also have "\<dots> \<noteq> c"
    proof (cases "i - Suc (length l) < length r")
      case True
      then show ?thesis using assms(2) by (auto simp: nth_append)
    next
      case False
      then have "i - Suc (length l) = length r" using that by simp
      then show ?thesis using c by (simp add: nth_append)
    qed
    finally show ?thesis .
  qed
  have "strrchr_down mem p (length ?s) c = strrchr_down mem p (length l) c"
    by (rule strrchr_down_skip) (use miss in auto)
  moreover have "peek mem (p + length l) = c"
    using holds_peek[OF assms(1), of "length l"] by simp
  ultimately show ?thesis by (simp add: strrchr_def len strrchr_down_hit)
qed

lemma strrchr_absent:
  assumes "holds mem p s" "c \<notin> set s" "c \<noteq> NUL"
  shows "strrchr mem p c = None"
proof -
  have "peek mem (p + i) \<noteq> c" if "i \<le> length s" for i
  proof (cases "i < length s")
    case True
    then show ?thesis using holds_peek[OF assms(1) True] assms(2) by auto
  next
    case False
    with that have "i = length s" by simp
    then show ?thesis using holds_peek_end[OF assms(1)] assms(3) by auto
  qed
  then show ?thesis by (simp add: strrchr_def strlen_holds[OF assms(1)] strrchr_down_miss)
qed

lemma skip_whitespace_holds:
  "holds mem p s \<Longrightarrow> skip_whitespace mem p = p + length (takeWhile is_whitespace s)"
proof (induction s arbitrary: p)
  case Nil
  then show ?case
    by (subst skip_whitespace.simps) (simp add: holds_peek_Nil not_whitespace_NUL)
next
  case (Cons a s)
  then have "peek mem p = a" "holds mem (Suc p) s"
    by (auto simp: holds_Cons peek_def)
  with Cons.IH[of "Suc p"] show ?case by (subst skip_whitespace.simps) simp
qed

lemma skip_file_name_holds:
  "holds mem p s \<Longrightarrow>
   skip_file_name mem p = p + length (takeWhile (\<lambda>c. \<not> is_whitespace c) s)"
proof (induction s arbitrary: p)
  case Nil
  then show ?case
    by (subst skip_file_name.simps) (simp add: holds_peek_Nil)
next
  case (Cons a s)
  then have "peek mem p = a" "a \<noteq> NUL" "holds mem (Suc p) s"
    by (auto simp: holds_Cons peek_def)
  with Cons.IH[of "Suc p"] show ?case by (subst skip_file_name.simps) simp
qed

lemma same_outside_refl: "same_outside mem mem lo hi"
  by (simp add: same_outside_def)

lemma same_outside_trans:
  "same_outside mem mem1 lo hi \<Longrightarrow> same_outside mem1 mem2 lo hi \<Longrightarrow> same_outside mem mem2 lo hi"
  by (simp add: same_outside_def)

lemma same_outside_widen:
  assumes "same_outside mem mem' lo hi" "lo' \<le> lo" "hi \<le> hi'"
  shows "same_outside mem mem' lo' hi'"
proof -
  have "take lo' (take lo mem') = take lo' (take lo mem)" using assms(1) by (simp add: same_outside_def)
  then have a: "take lo' mem' = take lo' mem" using assms(2) by (simp add: min_absorb1)
  have "drop (hi' - hi) (drop hi mem') = drop (hi' - hi) (drop hi mem)"
    using assms(1) by (simp add: same_outside_def)
  then have b: "drop hi' mem' = drop hi' mem" using assms(3) by simp
  show ?thesis using a b assms(1) by (simp add: same_outside_def)
qed

lemma same_outside_poke: "same_outside mem (poke mem p c) p (Suc p)"
  by (simp add: same_outside_def poke_def)

lemma holds_same_after:
  assumes "same_outside mem mem' lo hi" "hi \<le> p" "holds mem p s"
  shows "holds mem' p s"
proof -
  have "drop (p - hi) (drop hi mem') = drop (p - hi) (drop hi mem)"
    using assms(1) by (simp add: same_outside_def)
  then have "drop p mem' = drop p mem" using assms(2) by simp
  then show ?thesis using assms(3) by (simp add: holds_def)
qed

lemma holds_same_before:
  assumes "same_outside mem mem' lo hi" "p + length s < lo" "holds mem p s"
  shows "holds mem' p s"
proof -
  have "take (Suc (length s)) (drop p (take lo mem')) = take (Suc (length s)) (drop p (take lo mem))"
    using assms(1) by (simp add: same_outside_def)
  then have "take (Suc (length s)) (drop p mem') = take (Suc (length s)) (drop p mem)"
    using assms(2) by (simp add: drop_take min_absorb1)
  then show ?thesis using assms(3) by (simp add: holds_def)
qed

lemma holds_poke_left:
  "holds mem p (l @ c # r) \<Longrightarrow> holds (poke mem (p + length l) NUL) p l"
proof (induction l arbitrary: p)
  case Nil
  then show ?case by (simp add: holds_Cons holds_Nil poke_def)
next
  case (Cons a l)
  then show ?case using Cons.IH[of "Suc p"] by (simp add: holds_Cons poke_def)
qed

lemma holds_poke_right:
  assumes "holds mem p (l @ c # r)"
  shows "holds (poke mem (p + length l) NUL) (Suc (p + length l)) r"
proof -
  have "holds mem (p + length l) (c # r)" using assms by (rule holds_append)
  then have "holds mem (Suc (p + length l)) r" by (simp add: holds_Cons)
  then show ?thesis
    by (rule holds_same_after[OF same_outside_poke, rotated]) simp
qed

lemma tokens_Nil: "dropWhile is_whitespace s = [] \<Longrightarrow> tokens s = []"
  by (subst tokens.simps) (simp del: dropWhile_eq_Nil_conv)

lemma tokens_Cons:
  "dropWhile is_whitespace s = c # r \<Longrightarrow>
   tokens s = (c # takeWhile (\<lambda>x. \<not> is_whitespace x) r)
              # tokens (dropWhile (\<lambda>x. \<not> is_whitespace x) r)"
  by (subst tokens.simps) simp

lemma token_starts_Nil: "dropWhile is_whitespace s = [] \<Longrightarrow> token_starts p s = []"
  by (subst token_starts.simps) (simp del: dropWhile_eq_Nil_conv)

lemma token_starts_Cons:
  "dropWhile is_whitespace s = c # r \<Longrightarrow>
   token_starts p s = (p + length (takeWhile is_whitespace s))
     # token_starts (p + length (takeWhile is_whitespace s) + 1
                      + length (takeWhile (\<lambda>x. \<not> is_whitespace x) r))
         (dropWhile (\<lambda>x. \<not> is_whitespace x) r)"
  by (subst token_starts.simps) simp

lemma tokens_dropWhile: "tokens (dropWhile is_whitespace s) = tokens s"
  by (subst tokens.simps, subst (2) tokens.simps) simp

lemma token_starts_dropWhile:
  "token_starts (p + length (takeWhile is_whitespace s)) (dropWhile is_whitespace s)
   = token_starts p s"
proof (cases "dropWhile is_whitespace s")
  case Nil
  then show ?thesis by (simp add: token_starts_Nil)
next
  case (Cons c r)
  then have "\<not> is_whitespace c" using hd_dropWhile[of is_whitespace s] by auto
  then have "dropWhile is_whitespace (c # r) = c # r" "takeWhile is_whitespace (c # r) = []"
    by simp_all
  then show ?thesis using Cons
    by (simp add: token_starts_Cons[of s c r] token_starts_Cons[of "c # r" c r])
qed

lemma length_token_starts: "length (token_starts p s) = length (tokens s)"
proof (induction s arbitrary: p rule: tokens.induct)
  case (1 s)
  show ?case
  proof (cases "dropWhile is_whitespace s")
    case Nil
    then show ?thesis by (simp add: tokens_Nil token_starts_Nil)
  next
    case (Cons c r)
    then show ?thesis using 1[OF Cons] by (simp add: tokens_Cons token_starts_Cons)
  qed
qed

lemma execute_loop_scan:
  "holds mem b s \<Longrightarrow> a < MAXIMUM_ARGUMENTS \<Longrightarrow>
   execute_loop mem b a cmd
   = execute_loop mem (b + length (takeWhile (\<lambda>x. \<not> is_whitespace x) s)) a cmd"
proof (induction s arbitrary: b)
  case Nil
  then show ?case by simp
next
  case (Cons c s)
  show ?case
  proof (cases "is_whitespace c")
    case True
    then show ?thesis by simp
  next
    case False
    have "peek mem b = c" "c \<noteq> NUL" "holds mem (Suc b) s"
      using Cons.prems(1) by (auto simp: holds_Cons peek_def)
    then have "execute_loop mem b a cmd = execute_loop mem (Suc b) a cmd"
      using False Cons.prems(2) by (subst execute_loop.simps) simp
    also have "\<dots> = execute_loop mem (Suc b + length (takeWhile (\<lambda>x. \<not> is_whitespace x) s)) a cmd"
      using \<open>holds mem (Suc b) s\<close> Cons.prems(2) by (rule Cons.IH)
    finally show ?thesis using False by simp
  qed
qed

lemma execute_loop_end:
  "holds mem b [] \<Longrightarrow> execute_loop mem b a cmd = (mem, cmd)"
  by (subst execute_loop.simps) (simp add: holds_peek_Nil)

lemma execute_loop_full:
  "\<not> a < MAXIMUM_ARGUMENTS \<Longrightarrow> execute_loop mem b a cmd = (mem, cmd)"
  by (subst execute_loop.simps) simp

lemma execute_loop_split:
  assumes "holds mem b (w # s)" "is_whitespace w" "a < MAXIMUM_ARGUMENTS"
  shows "execute_loop mem b a cmd =
     (let mem1 = poke mem b NUL; b1 = Suc b + length (takeWhile is_whitespace s)
      in if dropWhile is_whitespace s = [] then (mem1, cmd)
         else execute_loop mem1 b1 (Suc a) (store_argv cmd (Suc a) (Some b1)))"
proof -
  let ?mem1 = "poke mem b NUL"
  let ?b1 = "Suc b + length (takeWhile is_whitespace s)"
  have pk: "peek mem b = w" "w \<noteq> NUL"
    using assms(1) by (auto simp: holds_Cons peek_def)
  have h1: "holds ?mem1 (Suc b) s"
    using holds_poke_right[of mem b "[]" w s] assms(1) by simp
  have sk: "skip_whitespace ?mem1 (b + 1) = ?b1"
    using skip_whitespace_holds[OF h1] by simp
  have h2: "holds ?mem1 ?b1 (dropWhile is_whitespace s)"
    using holds_append[of ?mem1 "Suc b" "takeWhile is_whitespace s" "dropWhile is_whitespace s"] h1
    by simp
  have e: "peek ?mem1 ?b1 = NUL \<longleftrightarrow> dropWhile is_whitespace s = []"
  proof (cases "dropWhile is_whitespace s")
    case Nil
    then show ?thesis using h2 by (simp add: holds_peek_Nil del: dropWhile_eq_Nil_conv)
  next
    case (Cons c r)
    then show ?thesis using h2 by (auto simp: holds_Cons peek_def)
  qed
  show ?thesis
    using pk assms(2,3) sk e
    by (subst execute_loop.simps) (simp add: Let_def del: dropWhile_eq_Nil_conv)
qed

lemma stores_stop: "\<not> i \<le> MAXIMUM_ARGUMENTS \<Longrightarrow> stores cmd i ps = cmd"
  by (cases ps) auto

lemma take_pos_Cons: "0 < n \<Longrightarrow> take n (x # xs) = x # take (n - 1) xs"
  by (cases n) auto

lemma dropWhile_eq_ConsD: "dropWhile P xs = y # ys \<Longrightarrow> \<not> P y"
  by (metis hd_dropWhile list.sel(1) list.distinct(1))

lemma execute_loop_tokens:
  assumes "holds mem b (c # r)" "\<not> is_whitespace c" "a < MAXIMUM_ARGUMENTS"
  shows "\<exists>mem'. execute_loop mem b a cmd
                  = (mem', stores cmd (Suc a) (tl (token_starts b (c # r))))
       \<and> same_outside mem mem' b (b + length (c # r))
       \<and> list_all2 (holds mem') (take (MAXIMUM_ARGUMENTS - a) (token_starts b (c # r)))
                                (take (MAXIMUM_ARGUMENTS - a) (tokens (c # r)))"
  using assms
proof (induction "length r" arbitrary: mem b a cmd c r rule: less_induct)
  case less
  let ?nw = "\<lambda>x. \<not> is_whitespace x"
  define t where "t = takeWhile ?nw r"
  define rest where "rest = dropWhile ?nw r"
  define e where "e = Suc b + length t"
  have r: "r = t @ rest" by (simp add: t_def rest_def)
  have pos: "0 < MAXIMUM_ARGUMENTS - a" using less.prems(3) by simp
  have dw: "dropWhile is_whitespace (c # r) = c # r" using less.prems(2) by simp
  have tok: "tokens (c # r) = (c # t) # tokens rest"
    using tokens_Cons[OF dw] by (simp add: t_def rest_def)
  have st: "token_starts b (c # r) = b # token_starts e rest"
    using token_starts_Cons[OF dw, of b] less.prems(2) by (simp add: t_def rest_def e_def)
  have scan: "execute_loop mem b a cmd = execute_loop mem e a cmd"
    using execute_loop_scan[OF less.prems(1) less.prems(3), of cmd] less.prems(2)
    by (simp add: t_def e_def)
  have he: "holds mem e rest"
    using holds_append[of mem b "c # t" rest] less.prems(1) r by (simp add: e_def)
  show ?case
  proof (cases rest)
    case Nil
    have "tokens rest = []" "token_starts e rest = []"
      using Nil by (simp_all add: tokens_Nil token_starts_Nil)
    moreover have "execute_loop mem e a cmd = (mem, cmd)"
      using he Nil by (simp add: execute_loop_end)
    moreover have "holds mem b (c # t)" using less.prems(1) r Nil by simp
    ultimately show ?thesis
      using scan tok st pos by (simp add: same_outside_refl take_pos_Cons)
  next
    case (Cons w rest')
    have ws: "is_whitespace w"
      using dropWhile_eq_ConsD[of ?nw r w rest'] Cons by (simp add: rest_def)
    define mem1 where "mem1 = poke mem e NUL"
    define b1 where "b1 = Suc e + length (takeWhile is_whitespace rest')"
    define r3 where "r3 = dropWhile is_whitespace rest'"
    have split: "execute_loop mem e a cmd =
        (if r3 = [] then (mem1, cmd)
         else execute_loop mem1 b1 (Suc a) (store_argv cmd (Suc a) (Some b1)))"
      using execute_loop_split[of mem e w rest' a cmd] he Cons ws less.prems(3)
      by (simp add: mem1_def b1_def r3_def Let_def del: dropWhile_eq_Nil_conv)
    have whole: "c # r = (c # t) @ w # rest'" using r Cons by simp
    have hleft: "holds mem1 b (c # t)"
      using holds_poke_left[of mem b "c # t" w rest'] less.prems(1) whole
      by (simp add: mem1_def e_def)
    have hright: "holds mem1 (Suc e) rest'"
      using holds_poke_right[of mem b "c # t" w rest'] less.prems(1) whole
      by (simp add: mem1_def e_def)
    have so1: "same_outside mem mem1 b (b + length (c # r))"
      unfolding mem1_def
      by (rule same_outside_widen[OF same_outside_poke]) (simp_all add: e_def whole)
    have dwrest: "dropWhile is_whitespace rest = r3"
      and twrest: "length (takeWhile is_whitespace rest) = Suc (length (takeWhile is_whitespace rest'))"
      using Cons ws by (simp_all add: r3_def)
    show ?thesis
    proof (cases r3)
      case Nil
      have "tokens rest = []" "token_starts e rest = []"
        using Nil dwrest by (simp_all add: tokens_Nil token_starts_Nil)
      moreover have "execute_loop mem e a cmd = (mem1, cmd)"
        using split Nil by simp
      ultimately show ?thesis
        using scan tok st pos hleft so1 by (simp add: take_pos_Cons)
    next
      case c2: (Cons c2 r2)
      have nws2: "\<not> is_whitespace c2"
        using dropWhile_eq_ConsD[of is_whitespace rest' c2 r2] c2 by (simp add: r3_def)
      have h3: "holds mem1 b1 (c2 # r2)"
        using holds_append[of mem1 "Suc e" "takeWhile is_whitespace rest'" r3] hright c2
        by (simp add: b1_def r3_def)
      have tok2: "tokens rest = tokens (c2 # r2)"
        using tokens_dropWhile[of rest] dwrest c2 by simp
      have st2: "token_starts e rest = token_starts b1 (c2 # r2)"
        using token_starts_dropWhile[of e rest] dwrest twrest c2 by (simp add: b1_def)
      have st3: "token_starts b1 (c2 # r2) = b1 # tl (token_starts b1 (c2 # r2))"
        using token_starts_Cons[of "c2 # r2" c2 r2 b1] nws2 by simp
      have len: "length (c # r) = (b1 - b) + length (c2 # r2)" "b \<le> b1" "e < b1"
        using whole c2 takeWhile_dropWhile_id[of is_whitespace rest']
        by (simp_all add: b1_def e_def r3_def) (metis length_append length_Cons add_Suc_right)
      define cmd1 where "cmd1 = store_argv cmd (Suc a) (Some b1)"
      have run: "execute_loop mem e a cmd = execute_loop mem1 b1 (Suc a) cmd1"
        using split c2 by (simp add: cmd1_def)
      have sto: "stores cmd (Suc a) (tl (token_starts b (c # r)))
                 = stores cmd1 (Suc (Suc a)) (tl (token_starts b1 (c2 # r2)))"
        using st st2 st3 less.prems(3) by (simp add: cmd1_def) (metis stores.simps(2) Suc_leI)
      show ?thesis
      proof (cases "Suc a < MAXIMUM_ARGUMENTS")
        case True
        have "length r2 < length r" using len unfolding e_def by simp
        from less.hyps[OF this h3 nws2 True, of cmd1]
        obtain mem' where
          ex: "execute_loop mem1 b1 (Suc a) cmd1
               = (mem', stores cmd1 (Suc (Suc a)) (tl (token_starts b1 (c2 # r2))))"
          and so2: "same_outside mem1 mem' b1 (b1 + length (c2 # r2))"
          and all: "list_all2 (holds mem')
                     (take (MAXIMUM_ARGUMENTS - Suc a) (token_starts b1 (c2 # r2)))
                     (take (MAXIMUM_ARGUMENTS - Suc a) (tokens (c2 # r2)))"
          by blast
        have "same_outside mem1 mem' b (b + length (c # r))"
          by (rule same_outside_widen[OF so2]) (use len in simp_all)
        then have so: "same_outside mem mem' b (b + length (c # r))"
          using so1 same_outside_trans by blast
        have "holds mem' b (c # t)"
          by (rule holds_same_before[OF so2 _ hleft]) (use len in \<open>simp add: e_def\<close>)
        then have "list_all2 (holds mem') (take (MAXIMUM_ARGUMENTS - a) (token_starts b (c # r)))
                     (take (MAXIMUM_ARGUMENTS - a) (tokens (c # r)))"
          using all pos tok st tok2 st2 by (simp add: take_pos_Cons)
        then show ?thesis using scan run ex sto so by simp
      next
        case False
        then have a: "MAXIMUM_ARGUMENTS - a = Suc 0" using less.prems(3) by simp
        have "execute_loop mem1 b1 (Suc a) cmd1 = (mem1, cmd1)"
          using False by (rule execute_loop_full)
        moreover have "stores cmd1 (Suc (Suc a)) (tl (token_starts b1 (c2 # r2))) = cmd1"
          using False less.prems(3) by (intro stores_stop) simp
        ultimately show ?thesis
          using scan run sto so1 hleft tok st a by simp
      qed
    qed
  qed
qed

lemma tokens_eq_Nil: "tokens s = [] \<longleftrightarrow> dropWhile is_whitespace s = []"
  by (cases "dropWhile is_whitespace s") (simp_all add: tokens_Nil tokens_Cons del: dropWhile_eq_Nil_conv)

lemma parse_execute_tokens:
  assumes "holds mem b s"
  shows "\<exists>mem'. parse_execute mem b
                  = (mem', stores create_execute_command 0 (token_starts b s))
       \<and> same_outside mem mem' b (b + length s)
       \<and> list_all2 (holds mem') (take MAXIMUM_ARGUMENTS (token_starts b s))
                                (take MAXIMUM_ARGUMENTS (tokens s))"
proof -
  define b0 where "b0 = b + length (takeWhile is_whitespace s)"
  define s1 where "s1 = dropWhile is_whitespace s"
  have s: "s = takeWhile is_whitespace s @ s1" by (simp add: s1_def)
  have sk: "skip_whitespace mem b = b0"
    using skip_whitespace_holds[OF assms] by (simp add: b0_def)
  have h0: "holds mem b0 s1"
    using holds_append[of mem b "takeWhile is_whitespace s" s1] assms
    by (simp add: b0_def s1_def)
  have len: "b0 + length s1 = b + length s"
    using arg_cong[OF s, of length] by (simp add: b0_def)
  show ?thesis
  proof (cases s1)
    case Nil
    then have "peek mem b0 = NUL" using h0 by (simp add: holds_peek_Nil)
    then have "parse_execute mem b = (mem, create_execute_command)"
      by (simp add: parse_execute_def sk)
    moreover have "tokens s = []" "token_starts b s = []"
      using Nil by (simp_all add: tokens_Nil token_starts_Nil s1_def del: dropWhile_eq_Nil_conv)
    ultimately show ?thesis by (simp add: same_outside_refl)
  next
    case (Cons c r)
    have nws: "\<not> is_whitespace c"
      using dropWhile_eq_ConsD[of is_whitespace s c r] Cons by (simp add: s1_def)
    have "peek mem b0 = c" "c \<noteq> NUL" using h0 Cons by (auto simp: holds_Cons peek_def)
    then have pe: "parse_execute mem b
        = execute_loop mem b0 0 (store_argv create_execute_command 0 (Some b0))"
      by (simp add: parse_execute_def sk)
    have "0 < MAXIMUM_ARGUMENTS" by (simp add: MAXIMUM_ARGUMENTS_def)
    from execute_loop_tokens[OF h0[unfolded Cons] nws this,
        of "store_argv create_execute_command 0 (Some b0)"]
    obtain mem' where
      ex: "execute_loop mem b0 0 (store_argv create_execute_command 0 (Some b0))
           = (mem', stores (store_argv create_execute_command 0 (Some b0)) (Suc 0)
                      (tl (token_starts b0 (c # r))))"
      and so: "same_outside mem mem' b0 (b0 + length (c # r))"
      and all: "list_all2 (holds mem') (take MAXIMUM_ARGUMENTS (token_starts b0 (c # r)))
                  (take MAXIMUM_ARGUMENTS (tokens (c # r)))"
      by auto
    have st: "token_starts b s = token_starts b0 (c # r)"
      using token_starts_dropWhile[of b s] Cons by (simp add: b0_def s1_def)
    have st2: "token_starts b0 (c # r) = b0 # tl (token_starts b0 (c # r))"
      using token_starts_Cons[of "c # r" c r b0] nws by simp
    have tk: "tokens s = tokens (c # r)"
      using tokens_dropWhile[of s] Cons by (simp add: s1_def)
    have "stores create_execute_command 0 (token_starts b s)
          = stores (store_argv create_execute_command 0 (Some b0)) (Suc 0)
              (tl (token_starts b0 (c # r)))"
      by (subst st, subst st2) simp
    moreover have "same_outside mem mem' b (b + length s)"
      by (rule same_outside_widen[OF so]) (use len Cons in \<open>simp_all add: b0_def\<close>)
    ultimately show ?thesis using pe ex all st tk by simp
  qed
qed

lemma stores_Execute:
  "i \<le> MAXIMUM_ARGUMENTS \<Longrightarrow> length av = MAXIMUM_ARGUMENTS \<Longrightarrow>
   stores (Execute_Command av ov) i ps =
     Execute_Command
       (take i av @ map Some (take (MAXIMUM_ARGUMENTS - i) ps)
          @ drop (i + length (take (MAXIMUM_ARGUMENTS - i) ps)) av)
       (ov @ (if MAXIMUM_ARGUMENTS - i < length ps
              then [(MAXIMUM_ARGUMENTS, Some (ps ! (MAXIMUM_ARGUMENTS - i)))] else []))"
proof (induction ps arbitrary: i av ov)
  case Nil
  then show ?case by simp
next
  case (Cons p ps)
  show ?case
  proof (cases "i < MAXIMUM_ARGUMENTS")
    case True
    then obtain k where k: "MAXIMUM_ARGUMENTS - i = Suc k" "MAXIMUM_ARGUMENTS - Suc i = k"
      by (metis Suc_diff_Suc diff_Suc_Suc)
    have "stores (Execute_Command av ov) i (p # ps)
          = stores (Execute_Command (av[i := Some p]) ov) (Suc i) ps"
      using True by simp
    also have "\<dots> = Execute_Command
       (take (Suc i) (av[i := Some p]) @ map Some (take k ps)
          @ drop (Suc i + length (take k ps)) (av[i := Some p]))
       (ov @ (if k < length ps then [(MAXIMUM_ARGUMENTS, Some (ps ! k))] else []))"
      using Cons.IH[of "Suc i" "av[i := Some p]" ov] True Cons.prems(2) k by simp
    also have "take (Suc i) (av[i := Some p]) = take i av @ [Some p]"
      using True Cons.prems(2) by (simp add: take_Suc_conv_app_nth)
    also have "drop (Suc i + length (take k ps)) (av[i := Some p])
               = drop (Suc i + length (take k ps)) av"
      by simp
    finally show ?thesis using k by simp
  next
    case False
    with Cons.prems have i: "i = MAXIMUM_ARGUMENTS" by simp
    have "stores (Execute_Command av ov) i (p # ps)
          = stores (Execute_Command av (ov @ [(i, Some p)])) (Suc i) ps"
      using i by simp
    also have "\<dots> = Execute_Command av (ov @ [(i, Some p)])"
      by (rule stores_stop) (simp add: i)
    finally show ?thesis using i Cons.prems(2) by simp
  qed
qed

lemma stores_create:
  "stores create_execute_command 0 ps =
     Execute_Command
       (map Some (take MAXIMUM_ARGUMENTS ps)
          @ replicate (MAXIMUM_ARGUMENTS - length ps) None)
       (if MAXIMUM_ARGUMENTS < length ps
        then [(MAXIMUM_ARGUMENTS, Some (ps ! MAXIMUM_ARGUMENTS))] else [])"
  unfolding create_execute_command_def
  by (subst stores_Execute) (auto simp: min_def)

lemma parse_redirection_file_name_fails:
  assumes "holds mem p s" "tokens s = []"
  shows "parse_redirection_file_name mem p
         = Inl (error ''Failed to parse filename for redirection'')"
proof -
  define b0 where "b0 = p + length (takeWhile is_whitespace s)"
  have d: "dropWhile is_whitespace s = []" using assms(2) by (simp only: tokens_eq_Nil)
  have sk: "skip_whitespace mem p = b0"
    using skip_whitespace_holds[OF assms(1)] by (simp add: b0_def)
  have "holds mem p (takeWhile is_whitespace s @ dropWhile is_whitespace s)"
    using assms(1) by simp
  from holds_append[OF this] have h0: "holds mem b0 []"
    by (simp only: d b0_def)
  have "skip_file_name mem b0 = b0" using skip_file_name_holds[OF h0] by simp
  moreover have "peek (poke mem b0 NUL) b0 = NUL"
    using h0 by (simp add: holds_Nil peek_def poke_def)
  ultimately show ?thesis by (simp add: parse_redirection_file_name_def sk Let_def)
qed

lemma parse_redirection_file_name_token:
  assumes "holds mem p s" "tokens s \<noteq> []"
  shows "\<exists>mem'. parse_redirection_file_name mem p = Inr (mem', hd (token_starts p s))
       \<and> same_outside mem mem' p (p + length s)
       \<and> holds mem' (hd (token_starts p s)) (hd (tokens s))"
proof -
  let ?nw = "\<lambda>x. \<not> is_whitespace x"
  define b0 where "b0 = p + length (takeWhile is_whitespace s)"
  have "dropWhile is_whitespace s \<noteq> []"
    using assms(2) tokens_eq_Nil by blast
  then obtain c r where d: "dropWhile is_whitespace s = c # r"
    by (meson list.exhaust)
  have nws: "\<not> is_whitespace c" using dropWhile_eq_ConsD[OF d] .
  define t where "t = c # takeWhile ?nw r"
  define rest where "rest = dropWhile ?nw r"
  define b1 where "b1 = b0 + length t"
  have s: "s = takeWhile is_whitespace s @ t @ rest"
    using takeWhile_dropWhile_id[of is_whitespace s] d by (simp add: t_def rest_def)
  have sk: "skip_whitespace mem p = b0"
    using skip_whitespace_holds[OF assms(1)] by (simp add: b0_def)
  have h0: "holds mem b0 (t @ rest)"
    using holds_append[of mem p "takeWhile is_whitespace s" "t @ rest"] assms(1) s
    by (simp add: b0_def)
  have sf: "skip_file_name mem b0 = b1"
    using skip_file_name_holds[OF h0] nws by (simp add: b1_def t_def rest_def)
  have tk: "hd (tokens s) = t" using tokens_Cons[OF d] by (simp add: t_def)
  have st: "hd (token_starts p s) = b0" using token_starts_Cons[OF d] by (simp add: b0_def)
  have len: "length s = (b0 - p) + length t + length rest" "p \<le> b0"
    using arg_cong[OF s, of length] by (simp_all add: b0_def)
  define mem1 where "mem1 = poke mem b1 NUL"
  have hs: "holds mem1 b0 t \<and> same_outside mem mem1 p (p + length s)"
  proof (cases rest)
    case Nil
    then have "holds mem b0 t" using h0 by simp
    moreover have "mem ! b1 = NUL"
      using holds_append[of mem b0 t "[]"] h0 Nil by (simp add: holds_Nil b1_def)
    then have "mem1 = mem" using list_update_id[of mem b1] by (simp add: mem1_def poke_def)
    ultimately show ?thesis by (simp add: same_outside_refl)
  next
    case (Cons w rest')
    have "holds mem1 b0 t"
      using holds_poke_left[of mem b0 t w rest'] h0 Cons by (simp add: mem1_def b1_def)
    moreover have "same_outside mem mem1 p (p + length s)"
      unfolding mem1_def
      by (rule same_outside_widen[OF same_outside_poke]) (use len Cons in \<open>simp_all add: b1_def\<close>)
    ultimately show ?thesis by simp
  qed
  then have "peek mem1 b0 \<noteq> NUL" by (auto simp: t_def holds_Cons peek_def)
  then have "parse_redirection_file_name mem p = Inr (mem1, b0)"
    by (simp add: parse_redirection_file_name_def sk sf Let_def mem1_def)
  then show ?thesis using hs tk st by simp
qed

lemma find_first_None: "find_first s c = None \<longleftrightarrow> c \<notin> set s"
  by (induction s) auto

lemma find_first_split:
  "find_first s c = Some i \<Longrightarrow> s = take i s @ c # drop (Suc i) s \<and> c \<notin> set (take i s)"
proof (induction s arbitrary: i)
  case Nil
  then show ?case by simp
next
  case (Cons x xs)
  show ?case
  proof (cases "x = c")
    case True
    with Cons.prems show ?thesis by simp
  next
    case False
    with Cons.prems obtain j where j: "find_first xs c = Some j" "i = Suc j" by auto
    with Cons.IH[OF j(1)] False show ?thesis by auto
  qed
qed

lemma find_last_None: "find_last s c = None \<longleftrightarrow> c \<notin> set s"
  by (induction s) (auto split: option.splits)

lemma find_last_split:
  "find_last s c = Some i \<Longrightarrow> s = take i s @ c # drop (Suc i) s \<and> c \<notin> set (drop (Suc i) s)"
proof (induction s arbitrary: i)
  case Nil
  then show ?case by simp
next
  case (Cons x xs)
  show ?case
  proof (cases "find_last xs c")
    case None
    with Cons.prems show ?thesis by (auto simp: find_last_None split: if_splits)
  next
    case (Some j)
    with Cons.prems have "i = Suc j" by simp
    with Cons.IH[OF Some] show ?thesis by auto
  qed
qed

lemma strchr_find_first:
  assumes "holds mem p s"
  shows "strchr mem p c = map_option ((+) p) (find_first s c)"
proof (cases "find_first s c")
  case None
  then show ?thesis using strchr_absent[OF assms, of c] by (simp add: find_first_None)
next
  case (Some i)
  from find_first_split[OF Some] find_first_less[OF Some]
  show ?thesis
    using strchr_first[of mem p "take i s" c "drop (Suc i) s"] assms Some by simp
qed

lemma strrchr_find_last:
  assumes "holds mem p s" "c \<noteq> NUL"
  shows "strrchr mem p c = map_option ((+) p) (find_last s c)"
proof (cases "find_last s c")
  case None
  then show ?thesis using strrchr_absent[OF assms(1) _ assms(2)] by (simp add: find_last_None)
next
  case (Some i)
  from find_last_split[OF Some] find_last_less[OF Some]
  show ?thesis
    using strrchr_last[of mem p "take i s" c "drop (Suc i) s"] assms Some by simp
qed

lemma parse_command_dispatch:
  assumes "holds mem b s"
  shows "parse_command (Suc n) mem b =
     (case find_first s CHR '';'' of
        Some i \<Rightarrow> parse_list n mem b (b + i)
      | None \<Rightarrow>
     (case find_first s CHR ''|'' of
        Some i \<Rightarrow> parse_pipe n mem b (b + i)
      | None \<Rightarrow>
     (case last_redirection s of
        Some i \<Rightarrow> parse_redirection n mem b (b + i)
      | None \<Rightarrow> Some (Inr (parse_execute mem b)))))"
proof -
  have gt: "strrchr mem b CHR ''>'' = map_option ((+) b) (find_last s CHR ''>'')"
    and lt: "strrchr mem b CHR ''<'' = map_option ((+) b) (find_last s CHR ''<'')"
    using assms by (simp_all add: strrchr_find_last NUL_def)
  show ?thesis
    unfolding parse_command.simps strchr_find_first[OF assms] gt lt last_redirection_def
    by (auto split: option.splits simp: Let_def max_def)
qed

lemma refines_Inl: "refines mem b s (Inl halt) \<longleftrightarrow> parse_line s = Inl halt"
  by (simp add: refines_def)

lemma refines_Inr:
  "refines mem b s (Inr (mem', cmd)) \<longleftrightarrow>
     same_outside mem mem' b (b + length s) \<and>
     (\<exists>t. parse_line s = Inr t \<and>
        (\<forall>m. take (Suc (b + length s)) m = take (Suc (b + length s)) mem'
             \<longrightarrow> tree_of m cmd = Some t))"
  by (simp add: refines_def)

lemma token_bounds:
  "list_all2 (\<lambda>p t. p + length t \<le> b + length s) (token_starts b s) (tokens s)"
proof (induction s arbitrary: b rule: tokens.induct)
  case (1 s)
  let ?nw = "\<lambda>x. \<not> is_whitespace x"
  show ?case
  proof (cases "dropWhile is_whitespace s")
    case Nil
    then show ?thesis by (simp add: tokens_Nil token_starts_Nil del: dropWhile_eq_Nil_conv)
  next
    case (Cons c r)
    define q where "q = b + length (takeWhile is_whitespace s)"
    define q' where "q' = q + 1 + length (takeWhile ?nw r)"
    have "s = takeWhile is_whitespace s @ c # takeWhile ?nw r @ dropWhile ?nw r"
      using takeWhile_dropWhile_id[of is_whitespace s] Cons by simp
    then have "length s = length (takeWhile is_whitespace s)
                 + Suc (length (takeWhile ?nw r) + length (dropWhile ?nw r))"
      by (metis length_append length_Cons)
    then have len: "q' + length (dropWhile ?nw r) = b + length s"
      by (simp add: q_def q'_def)
    have "list_all2 (\<lambda>p t. p + length t \<le> q' + length (dropWhile ?nw r))
            (token_starts q' (dropWhile ?nw r)) (tokens (dropWhile ?nw r))"
      by (rule 1[OF Cons])
    then have "list_all2 (\<lambda>p t. p + length t \<le> b + length s)
            (token_starts q' (dropWhile ?nw r)) (tokens (dropWhile ?nw r))"
      by (simp only: len)
    moreover have "q + length (c # takeWhile ?nw r) \<le> b + length s"
      using len by (simp add: q'_def)
    ultimately show ?thesis
      using Cons by (simp add: tokens_Cons token_starts_Cons q_def q'_def)
  qed
qed

lemma holds_prefix:
  assumes "take k m = take k mem" "holds mem p t" "p + length t < k"
  shows "holds m p t"
proof -
  have "take (Suc (length t)) (drop p (take k m)) = take (Suc (length t)) (drop p (take k mem))"
    using assms(1) by simp
  then have "take (Suc (length t)) (drop p m) = take (Suc (length t)) (drop p mem)"
    using assms(3) by (simp add: drop_take min_absorb1)
  then show ?thesis using assms(2) by (simp add: holds_def)
qed

lemma arguments_holds:
  assumes "list_all2 (holds m) ps ts"
  shows "arguments m (map Some ps @ replicate k None) = ts"
proof -
  have "takeWhile (\<lambda>p. p \<noteq> None) (map Some ps @ replicate k None) = map Some ps"
    by (cases k) (simp_all add: takeWhile_tail)
  moreover have "map (cstring m) ps = ts"
    using assms by (induction rule: list_all2_induct) (simp_all add: holds_cstring)
  ultimately show ?thesis by (simp add: arguments_def comp_def)
qed

lemma list_all2_conj:
  "list_all2 P xs ys \<Longrightarrow> list_all2 Q xs ys \<Longrightarrow> list_all2 (\<lambda>x y. P x y \<and> Q x y) xs ys"
  by (simp add: list_all2_conv_all_nth)

lemma parse_execute_refines:
  assumes "holds mem b s"
  shows "\<exists>mem' cmd. parse_execute mem b = (mem', cmd)
       \<and> same_outside mem mem' b (b + length s)
       \<and> (\<forall>m. take (Suc (b + length s)) m = take (Suc (b + length s)) mem'
              \<longrightarrow> tree_of m cmd = Some (Execute (take MAXIMUM_ARGUMENTS (tokens s))))"
proof -
  let ?ps = "take MAXIMUM_ARGUMENTS (token_starts b s)"
  let ?ts = "take MAXIMUM_ARGUMENTS (tokens s)"
  from parse_execute_tokens[OF assms] obtain mem' where
    pe: "parse_execute mem b = (mem', stores create_execute_command 0 (token_starts b s))"
    and so: "same_outside mem mem' b (b + length s)"
    and all: "list_all2 (holds mem') ?ps ?ts"
    by blast
  have bnd: "list_all2 (\<lambda>p t. p + length t \<le> b + length s) ?ps ?ts"
    using token_bounds[of b s] by (rule list_all2_takeI)
  have both: "list_all2 (\<lambda>p t. holds mem' p t \<and> p + length t \<le> b + length s) ?ps ?ts"
    using all bnd by (rule list_all2_conj)
  have "tree_of m (stores create_execute_command 0 (token_starts b s)) = Some (Execute ?ts)"
    if m: "take (Suc (b + length s)) m = take (Suc (b + length s)) mem'" for m
  proof -
    have "list_all2 (holds m) ?ps ?ts"
      using both by (rule list_all2_mono) (auto intro: holds_prefix[OF m])
    then show ?thesis by (simp add: stores_create arguments_holds)
  qed
  then show ?thesis using pe so by blast
qed

lemma parse_line_list:
  "find_first s CHR '';'' = Some i \<Longrightarrow>
   parse_line s = join Sequence (parse_line (take i s)) (parse_line (drop (Suc i) s))"
  by (subst parse_line.simps) simp

lemma parse_line_pipe:
  "find_first s CHR '';'' = None \<Longrightarrow> find_first s CHR ''|'' = Some i \<Longrightarrow>
   parse_line s = join Pipeline (parse_line (take i s)) (parse_line (drop (Suc i) s))"
  by (subst parse_line.simps) simp

lemma parse_line_redirection:
  "find_first s CHR '';'' = None \<Longrightarrow> find_first s CHR ''|'' = None \<Longrightarrow>
   last_redirection s = Some i \<Longrightarrow>
   parse_line s = redirect (s ! i) (parse_line (take i s)) (tokens (drop (Suc i) s))"
  by (subst parse_line.simps) simp

lemma parse_line_execute:
  "find_first s CHR '';'' = None \<Longrightarrow> find_first s CHR ''|'' = None \<Longrightarrow>
   last_redirection s = None \<Longrightarrow>
   parse_line s = Inr (Execute (take MAXIMUM_ARGUMENTS (tokens s)))"
  by (subst parse_line.simps) simp

lemma and_then_simps:
  "and_then None f = None"
  "and_then (Some (Inl halt)) f = Some (Inl halt)"
  "and_then (Some (Inr x)) f = f x"
  by (simp_all add: and_then_def)

lemma take_take_eq:
  "take k m = take k m' \<Longrightarrow> j \<le> k \<Longrightarrow> take j m = take j m'"
  by (metis min.absorb1 take_take)

lemma same_outside_take: "same_outside mem mem' lo hi \<Longrightarrow> take lo mem' = take lo mem"
  by (simp add: same_outside_def)

lemma binary_step:
  assumes IH: "\<And>mem b s. holds mem b s \<Longrightarrow> length s < n \<Longrightarrow>
                 \<exists>res. parse_command n mem b = Some res \<and> refines mem b s res"
    and h: "holds mem b (l @ c # r)"
    and len: "length (l @ c # r) < Suc n"
    and mk: "\<And>m x y. tree_of m (mk x y) =
               (case tree_of m x of None \<Rightarrow> None | Some a \<Rightarrow>
                  (case tree_of m y of None \<Rightarrow> None | Some b \<Rightarrow> Some (mk' a b)))"
    and pl: "parse_line (l @ c # r) = join mk' (parse_line l) (parse_line r)"
  shows "\<exists>res. and_then (parse_command n (poke mem (b + length l) NUL) b)
                 (\<lambda>(mem1, x). and_then (parse_command n mem1 (b + length l + 1))
                    (\<lambda>(mem2, y). Some (Inr (mem2, mk x y)))) = Some res
               \<and> refines mem b (l @ c # r) res"
proof -
  define p where "p = b + length l"
  define mem1 where "mem1 = poke mem p NUL"
  define hi where "hi = b + length (l @ c # r)"
  have hi: "hi = Suc p + length r" "p < hi" "b \<le> p" by (simp_all add: hi_def p_def)
  have h1: "holds mem1 b l"
    using holds_poke_left[OF h] by (simp add: mem1_def p_def)
  have hr1: "holds mem1 (Suc p) r"
    using holds_poke_right[OF h] by (simp add: mem1_def p_def)
  have so1: "same_outside mem mem1 b hi"
    unfolding mem1_def
    by (rule same_outside_widen[OF same_outside_poke]) (use hi in simp_all)
  from IH[OF h1] len obtain res1 where
    r1: "parse_command n mem1 b = Some res1" and ref1: "refines mem1 b l res1"
    by auto
  show ?thesis
  proof (cases res1)
    case (Inl halt)
    then have "parse_line l = Inl halt" using ref1 by (simp add: refines_Inl)
    then have "refines mem b (l @ c # r) (Inl halt)"
      by (simp add: refines_Inl pl join_def)
    then show ?thesis
      using r1 Inl by (simp add: and_then_simps mem1_def[symmetric] p_def[symmetric])
  next
    case (Inr pr)
    obtain mem2 x where pr: "pr = (mem2, x)" by (cases pr)
    from ref1 Inr pr obtain tl where
      so2: "same_outside mem1 mem2 b (b + length l)"
      and tl: "parse_line l = Inr tl"
      and stl: "\<And>m. take (Suc p) m = take (Suc p) mem2 \<Longrightarrow> tree_of m x = Some tl"
      by (auto simp: refines_Inr p_def)
    have hr2: "holds mem2 (Suc p) r"
      by (rule holds_same_after[OF so2 _ hr1]) (simp add: p_def)
    from IH[OF hr2] len obtain res2 where
      r2: "parse_command n mem2 (Suc p) = Some res2" and ref2: "refines mem2 (Suc p) r res2"
      by auto
    show ?thesis
    proof (cases res2)
      case (Inl halt)
      then have "parse_line r = Inl halt" using ref2 by (simp add: refines_Inl)
      then have "refines mem b (l @ c # r) (Inl halt)"
        by (simp add: refines_Inl pl join_def tl)
      then show ?thesis
        using r1 \<open>res1 = Inr pr\<close> pr r2 Inl
        by (simp add: and_then_simps mem1_def[symmetric] p_def[symmetric])
    next
      case (Inr pr2)
      obtain mem3 y where pr2: "pr2 = (mem3, y)" by (cases pr2)
      from ref2 Inr pr2 obtain tr where
        so3: "same_outside mem2 mem3 (Suc p) hi"
        and tr: "parse_line r = Inr tr"
        and str: "\<And>m. take (Suc hi) m = take (Suc hi) mem3 \<Longrightarrow> tree_of m y = Some tr"
        by (auto simp: refines_Inr hi)
      have "same_outside mem1 mem2 b hi"
        by (rule same_outside_widen[OF so2]) (use hi in \<open>simp_all add: p_def\<close>)
      moreover have "same_outside mem2 mem3 b hi"
        by (rule same_outside_widen[OF so3]) (use hi in simp_all)
      ultimately have so: "same_outside mem mem3 b hi"
        using so1 same_outside_trans by blast
      have "tree_of m (mk x y) = Some (mk' tl tr)"
        if m: "take (Suc hi) m = take (Suc hi) mem3" for m
      proof -
        have "take (Suc p) m = take (Suc p) mem3"
          by (rule take_take_eq[OF m]) (use hi in simp)
        then have "take (Suc p) m = take (Suc p) mem2"
          using same_outside_take[OF so3] by simp
        then show ?thesis using stl str[OF m] by (simp add: mk)
      qed
      then have "refines mem b (l @ c # r) (Inr (mem3, mk x y))"
        using so by (simp add: refines_Inr pl tl tr join_def hi_def)
      then show ?thesis
        using r1 \<open>res1 = Inr pr\<close> pr r2 Inr pr2
        by (simp add: and_then_simps mem1_def[symmetric] p_def[symmetric])
    qed
  qed
qed

lemma redirection_step:
  assumes IH: "\<And>mem b s. holds mem b s \<Longrightarrow> length s < n \<Longrightarrow>
                 \<exists>res. parse_command n mem b = Some res \<and> refines mem b s res"
    and h: "holds mem b (l @ c # r)"
    and len: "length (l @ c # r) < Suc n"
    and pl: "parse_line (l @ c # r) = redirect c (parse_line l) (tokens r)"
  shows "\<exists>res. parse_redirection n mem b (b + length l) = Some res
               \<and> refines mem b (l @ c # r) res"
proof -
  define p where "p = b + length l"
  define mem1 where "mem1 = poke mem p NUL"
  define hi where "hi = b + length (l @ c # r)"
  have hi: "hi = Suc p + length r" "p < hi" "b \<le> p" by (simp_all add: hi_def p_def)
  have dir: "peek mem p = c"
    using holds_peek[OF h, of "length l"] by (simp add: p_def)
  have h1: "holds mem1 b l"
    using holds_poke_left[OF h] by (simp add: mem1_def p_def)
  have hr1: "holds mem1 (Suc p) r"
    using holds_poke_right[OF h] by (simp add: mem1_def p_def)
  have so1: "same_outside mem mem1 b hi"
    unfolding mem1_def
    by (rule same_outside_widen[OF same_outside_poke]) (use hi in simp_all)
  from IH[OF h1] len obtain res1 where
    r1: "parse_command n mem1 b = Some res1" and ref1: "refines mem1 b l res1"
    by auto
  show ?thesis
  proof (cases res1)
    case (Inl halt)
    then have "parse_line l = Inl halt" using ref1 by (simp add: refines_Inl)
    then have "refines mem b (l @ c # r) (Inl halt)"
      by (simp add: refines_Inl pl redirect_def)
    then show ?thesis
      using r1 Inl by (simp add: and_then_simps mem1_def[symmetric] p_def[symmetric])
  next
    case (Inr pr)
    obtain mem2 x where pr: "pr = (mem2, x)" by (cases pr)
    from ref1 Inr pr obtain tl where
      so2: "same_outside mem1 mem2 b (b + length l)"
      and tl: "parse_line l = Inr tl"
      and stl: "\<And>m. take (Suc p) m = take (Suc p) mem2 \<Longrightarrow> tree_of m x = Some tl"
      by (auto simp: refines_Inr p_def)
    have hr2: "holds mem2 (Suc p) r"
      by (rule holds_same_after[OF so2 _ hr1]) (simp add: p_def)
    show ?thesis
    proof (cases "tokens r")
      case Nil
      have "parse_redirection_file_name mem2 (Suc p)
            = Inl (error ''Failed to parse filename for redirection'')"
        using hr2 Nil by (rule parse_redirection_file_name_fails)
      moreover have "refines mem b (l @ c # r)
            (Inl (error ''Failed to parse filename for redirection''))"
        by (simp add: refines_Inl pl redirect_def tl Nil)
      ultimately show ?thesis
        using r1 Inr pr
        by (simp add: and_then_simps mem1_def[symmetric] p_def[symmetric])
    next
      case (Cons f fs)
      define fp where "fp = hd (token_starts (Suc p) r)"
      obtain q qs where st: "token_starts (Suc p) r = q # qs"
        using length_token_starts[of "Suc p" r] Cons by (cases "token_starts (Suc p) r") auto
      have bnd: "fp + length f \<le> hi"
        using token_bounds[of "Suc p" r] st Cons hi by (simp add: fp_def)
      from parse_redirection_file_name_token[OF hr2] Cons obtain mem3 where
        fn: "parse_redirection_file_name mem2 (Suc p) = Inr (mem3, fp)"
        and so3: "same_outside mem2 mem3 (Suc p) hi"
        and hf: "holds mem3 fp f"
        by (auto simp: fp_def hi)
      define mode where "mode = (if c = CHR ''<'' then [O_RDONLY] else [O_WRONLY, O_CREATE])"
      define fd :: int where "fd = (if c = CHR ''<'' then 0 else 1)"
      have res: "parse_redirection n mem b p
                 = Some (Inr (mem3, Redirection_Command x fp mode fd))"
        using r1 Inr pr fn dir
        by (simp add: and_then_simps mem1_def[symmetric] mode_def fd_def
                      create_redirection_command_def)
      have "same_outside mem1 mem2 b hi"
        by (rule same_outside_widen[OF so2]) (use hi in \<open>simp_all add: p_def\<close>)
      moreover have "same_outside mem2 mem3 b hi"
        by (rule same_outside_widen[OF so3]) (use hi in simp_all)
      ultimately have so: "same_outside mem mem3 b hi"
        using so1 same_outside_trans by blast
      have "tree_of m (Redirection_Command x fp mode fd) = Some (Redirect tl f mode fd)"
        if m: "take (Suc hi) m = take (Suc hi) mem3" for m
      proof -
        have "take (Suc p) m = take (Suc p) mem3"
          by (rule take_take_eq[OF m]) (use hi in simp)
        then have "take (Suc p) m = take (Suc p) mem2"
          using same_outside_take[OF so3] by simp
        moreover have "holds m fp f"
          by (rule holds_prefix[OF m hf]) (use bnd in simp)
        ultimately show ?thesis using stl by (simp add: holds_cstring)
      qed
      moreover have "parse_line (l @ c # r) = Inr (Redirect tl f mode fd)"
        by (simp add: pl redirect_def tl Cons mode_def fd_def)
      ultimately have "refines mem b (l @ c # r) (Inr (mem3, Redirection_Command x fp mode fd))"
        using so by (simp add: refines_Inr hi_def)
      then show ?thesis using res by (simp add: p_def)
    qed
  qed
qed

theorem parse_command_refines:
  "holds mem b s \<Longrightarrow> length s < n \<Longrightarrow>
   \<exists>res. parse_command n mem b = Some res \<and> refines mem b s res"
proof (induction n arbitrary: mem b s)
  case 0
  then show ?case by simp
next
  case (Suc n)
  note IH = Suc.IH
  note disp = parse_command_dispatch[OF Suc.prems(1), of n]
  show ?case
  proof (cases "find_first s CHR '';''")
    case (Some i)
    define l where "l = take i s"
    define r where "r = drop (Suc i) s"
    have s: "s = l @ CHR '';'' # r" and i: "length l = i"
      using find_first_split[OF Some] find_first_less[OF Some] by (simp_all add: l_def r_def)
    have pl: "parse_line (l @ CHR '';'' # r) = join Sequence (parse_line l) (parse_line r)"
      using parse_line_list[OF Some, folded l_def r_def] s by simp
    from binary_step[OF IH Suc.prems(1)[unfolded s] Suc.prems(2)[unfolded s] _ pl,
        of List_Command]
    show ?thesis
      using disp Some by (simp add: s[symmetric] i create_list_command_def)
  next
    case None
    show ?thesis
    proof (cases "find_first s CHR ''|''")
      case (Some i)
      define l where "l = take i s"
      define r where "r = drop (Suc i) s"
      have s: "s = l @ CHR ''|'' # r" and i: "length l = i"
        using find_first_split[OF Some] find_first_less[OF Some] by (simp_all add: l_def r_def)
      have pl: "parse_line (l @ CHR ''|'' # r) = join Pipeline (parse_line l) (parse_line r)"
        using parse_line_pipe[OF None Some, folded l_def r_def] s by simp
      from binary_step[OF IH Suc.prems(1)[unfolded s] Suc.prems(2)[unfolded s] _ pl,
          of Pipe_Command]
      show ?thesis
        using disp None Some by (simp add: s[symmetric] i create_pipe_command_def)
    next
      case nopipe: None
      show ?thesis
      proof (cases "last_redirection s")
        case (Some i)
        define l where "l = take i s"
        define r where "r = drop (Suc i) s"
        have "i < length s" using last_redirection_less[OF Some] .
        then have s: "s = l @ s ! i # r" and i: "length l = i"
          by (simp_all add: l_def r_def id_take_nth_drop[symmetric])
        have pl: "parse_line (l @ s ! i # r) = redirect (s ! i) (parse_line l) (tokens r)"
          using parse_line_redirection[OF None nopipe Some, folded l_def r_def] s by simp
        have h: "holds mem b (l @ s ! i # r)" using Suc.prems(1) s by simp
        have len: "length (l @ s ! i # r) < Suc n" using Suc.prems(2) s by simp
        from redirection_step[OF IH h len pl]
        show ?thesis
          using disp None nopipe Some by (simp add: s[symmetric] i)
      next
        case noredir: None
        from parse_execute_refines[OF Suc.prems(1)] obtain mem' cmd where
          "parse_execute mem b = (mem', cmd)"
          "same_outside mem mem' b (b + length s)"
          "\<forall>m. take (Suc (b + length s)) m = take (Suc (b + length s)) mem'
              \<longrightarrow> tree_of m cmd = Some (Execute (take MAXIMUM_ARGUMENTS (tokens s)))"
          by blast
        then show ?thesis
          using disp None nopipe noredir
          by (simp add: refines_Inr parse_line_execute)
      qed
    qed
  qed
qed

lemma find_first_append: "c \<notin> set l \<Longrightarrow> find_first (l @ c # r) c = Some (length l)"
  by (induction l) auto

lemma find_last_append: "c \<notin> set r \<Longrightarrow> find_last (l @ c # r) c = Some (length l)"
  by (induction l) (auto simp: find_last_None[THEN iffD2])

lemma find_first_absent: "c \<notin> set s \<Longrightarrow> find_first s c = None"
  by (simp add: find_first_None)

lemma find_last_absent: "c \<notin> set s \<Longrightarrow> find_last s c = None"
  by (simp add: find_last_None)

lemma parse_line_plain:
  "plain s \<Longrightarrow> parse_line s = Inr (Execute (take MAXIMUM_ARGUMENTS (tokens s)))"
  by (rule parse_line_execute)
     (simp_all add: plain_def find_first_absent find_last_absent last_redirection_def)

lemma parse_line_halt:
  "parse_line s = Inl halt \<Longrightarrow> halt = error ''Failed to parse filename for redirection''"
proof (induction s rule: parse_line.induct)
  case (1 s)
  show ?case
  proof (cases "find_first s CHR '';''")
    case (Some i)
    then show ?thesis
      using "1.IH"(1,2) "1.prems" parse_line_list[OF Some]
      by (auto simp: join_def split: sum.splits)
  next
    case None
    show ?thesis
    proof (cases "find_first s CHR ''|''")
      case (Some i)
      then show ?thesis
        using "1.IH"(3,4) "1.prems" None parse_line_pipe[OF None Some]
        by (auto simp: join_def split: sum.splits)
    next
      case nopipe: None
      show ?thesis
      proof (cases "last_redirection s")
        case (Some i)
        then show ?thesis
          using "1.IH"(5) "1.prems" None nopipe parse_line_redirection[OF None nopipe Some]
          by (auto simp: redirect_def split: sum.splits list.splits if_splits)
      next
        case noredir: None
        then show ?thesis
          using "1.prems" parse_line_execute[OF None nopipe noredir] by simp
      qed
    qed
  qed
qed

lemma tokens_wellformed:
  "t \<in> set (tokens s) \<Longrightarrow> t \<noteq> [] \<and> list_all (\<lambda>c. \<not> is_whitespace c) t"
proof (induction s rule: tokens.induct)
  case (1 s)
  show ?case
  proof (cases "dropWhile is_whitespace s")
    case Nil
    then show ?thesis using "1.prems" by (simp add: tokens_Nil del: dropWhile_eq_Nil_conv)
  next
    case (Cons c r)
    have "\<not> is_whitespace c" using dropWhile_eq_ConsD[OF Cons] .
    moreover have "list_all (\<lambda>c. \<not> is_whitespace c) (takeWhile (\<lambda>x. \<not> is_whitespace x) r)"
      by (auto simp: list_all_iff dest: set_takeWhileD)
    ultimately show ?thesis
      using "1.IH"[OF Cons] "1.prems" by (auto simp: tokens_Cons[OF Cons])
  qed
qed

lemma parse_command_tree:
  assumes "holds mem b s" "length s < n" "parse_line s = Inr t"
  shows "\<exists>mem' cmd. parse_command n mem b = Some (Inr (mem', cmd))
                   \<and> tree_of mem' cmd = Some t"
proof -
  from parse_command_refines[OF assms(1,2)] obtain res where
    res: "parse_command n mem b = Some res" "refines mem b s res"
    by blast
  show ?thesis
  proof (cases res)
    case (Inl halt)
    then show ?thesis using res assms(3) by (simp add: refines_Inl)
  next
    case (Inr pr)
    obtain mem' cmd where "pr = (mem', cmd)" by (cases pr)
    then show ?thesis using res Inr assms(3) by (auto simp: refines_Inr)
  qed
qed

lemma parse_command_halt:
  assumes "holds mem b s" "length s < n" "parse_line s = Inl halt"
  shows "parse_command n mem b = Some (Inl halt)"
proof -
  from parse_command_refines[OF assms(1,2)] obtain res where
    res: "parse_command n mem b = Some res" "refines mem b s res"
    by blast
  show ?thesis
  proof (cases res)
    case (Inl halt')
    then show ?thesis using res assms(3) by (simp add: refines_Inl)
  next
    case (Inr pr)
    obtain mem' cmd where "pr = (mem', cmd)" by (cases pr)
    then show ?thesis using res Inr assms(3) by (auto simp: refines_Inr)
  qed
qed

lemma whitespace_not_operator:
  "is_whitespace c \<Longrightarrow> c \<noteq> CHR '';'' \<and> c \<noteq> CHR ''|'' \<and> c \<noteq> CHR ''>'' \<and> c \<noteq> CHR ''<''"
  by (auto simp: is_whitespace_iff)

lemma tokens_unwords:
  assumes "\<And>t. t \<in> set ts \<Longrightarrow> t \<noteq> [] \<and> list_all (\<lambda>c. \<not> is_whitespace c) t"
  shows "tokens (concat (map (\<lambda>t. CHR '' '' # t) ts)) = ts"
  using assms
proof (induction ts)
  case Nil
  show ?case by (simp add: tokens_Nil)
next
  case (Cons t ts)
  from Cons.prems[of t] obtain c r where t: "t = c # r" "\<not> is_whitespace c"
    "list_all (\<lambda>c. \<not> is_whitespace c) r"
    by (cases t) auto
  let ?rest = "concat (map (\<lambda>t. CHR '' '' # t) ts)"
  have sp: "is_whitespace CHR '' ''" by (simp add: is_whitespace_iff)
  have d: "dropWhile is_whitespace (CHR '' '' # t @ ?rest) = c # r @ ?rest"
    using t sp by simp
  have tw: "takeWhile (\<lambda>x. \<not> is_whitespace x) (r @ ?rest) = r"
  proof (cases ts)
    case Nil
    then show ?thesis using t(3) by (simp add: list_all_iff)
  next
    case (Cons u us)
    then show ?thesis using t(3) sp by (simp add: list_all_iff takeWhile_tail)
  qed
  have dw: "tokens (dropWhile (\<lambda>x. \<not> is_whitespace x) (r @ ?rest)) = tokens ?rest"
  proof (cases ts)
    case Nil
    have "dropWhile (\<lambda>x. \<not> is_whitespace x) r = []"
      using t(3) by (simp add: list_all_iff)
    then show ?thesis using Nil by (simp del: dropWhile_eq_Nil_conv)
  next
    case (Cons u us)
    then show ?thesis using t(3) sp by (simp add: list_all_iff dropWhile_append3)
  qed
  have "tokens ?rest = ts" by (rule Cons.IH) (simp add: Cons.prems)
  then show ?case using tokens_Cons[OF d] tw dw t by simp
qed

section \<open>Lemmas for the claims\<close>

lemma parse_execute_arguments:
  assumes "holds mem buffer line"
  shows "\<exists>mem'. parse_execute mem buffer
           = (mem', Execute_Command
                (map Some (take MAXIMUM_ARGUMENTS (token_starts buffer line))
                   @ replicate (MAXIMUM_ARGUMENTS - length (tokens line)) None)
                (if MAXIMUM_ARGUMENTS < length (tokens line)
                 then [(MAXIMUM_ARGUMENTS, Some (token_starts buffer line ! MAXIMUM_ARGUMENTS))]
                 else []))
       \<and> list_all2 (holds mem') (take MAXIMUM_ARGUMENTS (token_starts buffer line))
                                (take MAXIMUM_ARGUMENTS (tokens line))"
proof -
  from parse_execute_tokens[OF assms] obtain mem' where
    "parse_execute mem buffer
       = (mem', stores create_execute_command 0 (token_starts buffer line))"
    "list_all2 (holds mem') (take MAXIMUM_ARGUMENTS (token_starts buffer line))
                            (take MAXIMUM_ARGUMENTS (tokens line))"
    by blast
  then show ?thesis
    by (intro exI[of _ mem']) (simp add: stores_create length_token_starts)
qed

lemma list_all2_left:
  "list_all2 P xs ys \<Longrightarrow> (\<And>x y. P x y \<Longrightarrow> y \<in> set ys \<Longrightarrow> Q x) \<Longrightarrow> list_all Q xs"
  by (induction rule: list_all2_induct) auto

lemma tokens_whitespace: "list_all is_whitespace w \<Longrightarrow> tokens w = []"
  by (simp add: tokens_eq_Nil list_all_iff)

lemma find_last_bound:
  "d \<notin> set r \<Longrightarrow> d \<noteq> c \<Longrightarrow> find_last (l @ c # r) d = Some j \<Longrightarrow> j < length l"
proof (induction l arbitrary: j)
  case Nil
  then show ?case by (simp add: find_last_absent)
next
  case (Cons a l)
  show ?case
  proof (cases "find_last (l @ c # r) d")
    case None
    with Cons.prems(3) show ?thesis by (simp split: if_splits)
  next
    case (Some i)
    with Cons.prems(3) have "j = Suc i" by simp
    with Cons.IH[OF Cons.prems(1,2) Some] show ?thesis by simp
  qed
qed

lemma last_redirection_append:
  assumes "c = CHR ''>'' \<or> c = CHR ''<''" "CHR ''>'' \<notin> set r" "CHR ''<'' \<notin> set r"
  shows "last_redirection (l @ c # r) = Some (length l)"
proof -
  have "find_last (l @ c # r) c = Some (length l)"
    using assms by (intro find_last_append) auto
  moreover have "j < length l" if "find_last (l @ c # r) d = Some j" "d \<noteq> c"
    "d = CHR ''>'' \<or> d = CHR ''<''" for d j
    using find_last_bound[OF _ that(2) that(1)] assms(2,3) that(3) by auto
  ultimately show ?thesis
    using assms(1)
    by (auto simp: last_redirection_def max_def split: option.splits)
qed

lemma parse_line_list_append:
  assumes "CHR '';'' \<notin> set l"
  shows "parse_line (l @ CHR '';'' # r) = join Sequence (parse_line l) (parse_line r)"
  using parse_line_list[OF find_first_append[OF assms, of r]] by simp

lemma parse_line_pipe_append:
  assumes "CHR '';'' \<notin> set (l @ CHR ''|'' # r)" "CHR ''|'' \<notin> set l"
  shows "parse_line (l @ CHR ''|'' # r) = join Pipeline (parse_line l) (parse_line r)"
  using parse_line_pipe[OF find_first_absent[OF assms(1)] find_first_append[OF assms(2), of r]]
  by simp

lemma parse_line_redirection_append:
  assumes "CHR '';'' \<notin> set (l @ c # r)" "CHR ''|'' \<notin> set (l @ c # r)"
    "c = CHR ''>'' \<or> c = CHR ''<''" "CHR ''>'' \<notin> set r" "CHR ''<'' \<notin> set r"
  shows "parse_line (l @ c # r) = redirect c (parse_line l) (tokens r)"
  using parse_line_redirection[OF find_first_absent[OF assms(1)] find_first_absent[OF assms(2)]
          last_redirection_append[OF assms(3,4,5), of l]]
  by simp

lemma whitespace_line_execute:
  assumes "holds mem buffer line" "list_all is_whitespace line"
  shows "parse_execute mem buffer = (mem, create_execute_command)"
proof -
  have tw: "takeWhile is_whitespace line = line"
    using assms(2) by (simp add: list_all_iff)
  have "skip_whitespace mem buffer = buffer + length line"
    using skip_whitespace_holds[OF assms(1)] tw by simp
  moreover have "peek mem (buffer + length line) = NUL"
    using assms(1) by (rule holds_peek_end)
  ultimately show ?thesis by (simp add: parse_execute_def)
qed

lemma parse_command_plain:
  assumes "holds mem buffer line" "plain line"
  shows "parse_command (Suc n) mem buffer = Some (Inr (parse_execute mem buffer))"
  using parse_command_dispatch[OF assms(1), of n] assms(2)
  by (simp add: plain_def find_first_absent find_last_absent last_redirection_def)

lemma parse_redirection_input:
  assumes "parse_redirection n mem buffer p_split = Some (Inr (mem', command))"
    "peek mem p_split = CHR ''<''"
  shows "\<exists>inner name. command = Redirection_Command inner name [O_RDONLY] 0"
  using assms
  by (auto simp: and_then_def create_redirection_command_def
           split: option.splits sum.splits prod.splits if_splits)

lemma parse_redirection_output:
  assumes "parse_redirection n mem buffer p_split = Some (Inr (mem', command))"
    "peek mem p_split = CHR ''>''"
  shows "\<exists>inner name. command = Redirection_Command inner name [O_WRONLY, O_CREATE] 1"
  using assms
  by (auto simp: and_then_def create_redirection_command_def
           split: option.splits sum.splits prod.splits if_splits)

lemma parse_redirection_returns:
  assumes "holds mem buffer (l @ c # r)" "length l < n"
  shows "(\<exists>result. parse_redirection n mem buffer (buffer + length l) = Some result)
       \<and> (plain l \<and> tokens r \<noteq> [] \<longrightarrow>
            (\<exists>mem' command.
               parse_redirection n mem buffer (buffer + length l) = Some (Inr (mem', command))))"
proof -
  define p where "p = buffer + length l"
  define mem1 where "mem1 = poke mem p NUL"
  have h1: "holds mem1 buffer l"
    using holds_poke_left[OF assms(1)] by (simp add: mem1_def p_def)
  have hr: "holds mem1 (Suc p) r"
    using holds_poke_right[OF assms(1)] by (simp add: mem1_def p_def)
  from parse_command_refines[OF h1 assms(2)] obtain res where
    res: "parse_command n mem1 buffer = Some res" and ref: "refines mem1 buffer l res"
    by blast
  show ?thesis
  proof (cases res)
    case (Inl halt)
    then have run: "parse_redirection n mem buffer p = Some (Inl halt)"
      using res by (simp add: and_then_simps mem1_def[symmetric])
    have "\<not> plain l"
      using ref Inl parse_line_plain[of l] by (auto simp: refines_Inl)
    then show ?thesis using run by (simp add: p_def)
  next
    case (Inr pr)
    obtain mem2 x where pr: "pr = (mem2, x)" by (cases pr)
    then have "same_outside mem1 mem2 buffer (buffer + length l)"
      using ref Inr by (simp add: refines_Inr)
    then have hr2: "holds mem2 (Suc p) r"
      by (rule holds_same_after[OF _ _ hr]) (simp add: p_def)
    show ?thesis
    proof (cases "tokens r = []")
      case True
      have "parse_redirection_file_name mem2 (Suc p)
            = Inl (error ''Failed to parse filename for redirection'')"
        using hr2 True by (rule parse_redirection_file_name_fails)
      then have "parse_redirection n mem buffer p
            = Some (Inl (error ''Failed to parse filename for redirection''))"
        using res Inr pr by (simp add: and_then_simps mem1_def[symmetric])
      then show ?thesis using True by (simp add: p_def)
    next
      case False
      from parse_redirection_file_name_token[OF hr2 False] obtain mem3 where
        "parse_redirection_file_name mem2 (Suc p) = Inr (mem3, hd (token_starts (Suc p) r))"
        by blast
      then have "\<exists>mem' command. parse_redirection n mem buffer p = Some (Inr (mem', command))"
        using res Inr pr by (simp add: and_then_simps mem1_def[symmetric])
      then show ?thesis by (auto simp: p_def)
    qed
  qed
qed

text \<open>
  With 16 tokens every slot is occupied and nothing was stored behind the array: the
  vector handed to \<^verbatim>\<open>exec\<close> has no \<^verbatim>\<open>NULL\<close> inside the array. With 17 tokens or more the
  first pointer behind the array is the start of the 17th token.
\<close>

lemma full_argv_is_unterminated:
  "exec_arguments mem (map Some ps) ov = Unterminated (map (cstring mem) ps) ov"
  by (simp add: exec_arguments_def arguments_def list_ex_iff comp_def takeWhile_eq_all_conv[THEN iffD2])

section \<open>The claims\<close>

subsection \<open>The executor\<close>

text \<open>
  C1. The claim: for every non-empty execute command whose program cannot be launched
  (\<^verbatim>\<open>exec\<close> returns), \<open>run_command\<close> writes \<^verbatim>\<open>Failed to execute <program>\<close> to the error
  stream and then ends the process with status 1. The code writes the diagnostic, but the
  \<^verbatim>\<open>break\<close> that follows leads to the \<^verbatim>\<open>exit(0)\<close> at the end of \<open>run_command\<close>: wherever
  \<^verbatim>\<open>exec\<close> returns, the process ends with status 0. The second part is the child of
  \<^verbatim>\<open>main\<close> on the line \<^verbatim>\<open>nosuch\<close>.
\<close>

theorem exec_failure_exits_with_status_0:
  "run_command mem (Execute_Command (Some p # av) ov)
     = Exec (cstring mem p) (exec_arguments mem (Some p # av) ov)
         (Write_Stderr (''Failed to execute '' @ cstring mem p @ [CHR 0x0A]) (Exit 0))
   \<and> shell_child 1 (''nosuch'' @ [NUL])
     = Some (Exec ''nosuch'' (Terminated [''nosuch''])
              (Write_Stderr (''Failed to execute nosuch'' @ [CHR 0x0A]) (Exit 0)))"
proof
  show "run_command mem (Execute_Command (Some p # av) ov)
     = Exec (cstring mem p) (exec_arguments mem (Some p # av) ov)
         (Write_Stderr (''Failed to execute '' @ cstring mem p @ [CHR 0x0A]) (Exit 0))"
    by simp
  show "shell_child 1 (''nosuch'' @ [NUL])
     = Some (Exec ''nosuch'' (Terminated [''nosuch''])
              (Write_Stderr (''Failed to execute nosuch'' @ [CHR 0x0A]) (Exit 0)))"
    by code_simp
qed

subsection \<open>The parser\<close>

text \<open>
  C2. The claim: on a line with both \<^verbatim>\<open>>\<close> and \<^verbatim>\<open><\<close> and neither \<^verbatim>\<open>;\<close> nor \<^verbatim>\<open>|\<close>,
  \<open>parse_command\<close> splits at whichever of the last \<^verbatim>\<open>>\<close> and the last \<^verbatim>\<open><\<close> has the
  smaller offset. The code compares the two pointers and splits at the larger one. As
  amended: with the last \<^verbatim>\<open>>\<close> at offset \<open>length l1\<close> and the last \<^verbatim>\<open><\<close> at offset \<open>length l2\<close>,
  \<open>parse_command\<close> is \<open>parse_redirection\<close> at the larger of the two; the symbol there gives
  the outer redirection command its mode and descriptor, its inner command is the result
  of \<open>parse_command\<close> on the text before the symbol (which holds the other redirection),
  and with a bound above the length of the line the call returns.
\<close>

theorem redirection_splits_at_later_symbol:
  assumes "holds mem buffer line"
    "CHR '';'' \<notin> set line" "CHR ''|'' \<notin> set line"
    "line = l1 @ CHR ''>'' # r1" "CHR ''>'' \<notin> set r1"
    "line = l2 @ CHR ''<'' # r2" "CHR ''<'' \<notin> set r2"
  shows "parse_command (Suc n) mem buffer
           = parse_redirection n mem buffer (buffer + max (length l1) (length l2))
       \<and> parse_redirection n mem buffer (buffer + max (length l1) (length l2))
           = and_then
               (parse_command n (poke mem (buffer + max (length l1) (length l2)) NUL) buffer)
               (\<lambda>(mem1, inner).
                  and_then (Some (parse_redirection_file_name mem1
                                    (buffer + max (length l1) (length l2) + 1)))
                    (\<lambda>(mem2, name).
                       Some (Inr (mem2,
                         if length l1 < length l2
                         then Redirection_Command inner name [O_RDONLY] 0
                         else Redirection_Command inner name [O_WRONLY, O_CREATE] 1))))
       \<and> (length line \<le> n \<longrightarrow> (\<exists>result. parse_command (Suc n) mem buffer = Some result))"
proof (intro conjI impI)
  have gt: "find_last line CHR ''>'' = Some (length l1)"
    unfolding assms(4) using assms(5) by (rule find_last_append)
  have lt: "find_last line CHR ''<'' = Some (length l2)"
    unfolding assms(6) using assms(7) by (rule find_last_append)
  have "last_redirection line = Some (max (length l1) (length l2))"
    by (simp add: last_redirection_def gt lt)
  then show "parse_command (Suc n) mem buffer
           = parse_redirection n mem buffer (buffer + max (length l1) (length l2))"
    using parse_command_dispatch[OF assms(1), of n] assms(2,3)
    by (simp add: find_first_absent)
next
  have p1: "peek mem (buffer + length l1) = CHR ''>''"
    using holds_peek[OF assms(1), of "length l1"] by (simp add: assms(4))
  have p2: "peek mem (buffer + length l2) = CHR ''<''"
    using holds_peek[OF assms(1), of "length l2"] by (simp add: assms(6))
  show "parse_redirection n mem buffer (buffer + max (length l1) (length l2))
           = and_then
               (parse_command n (poke mem (buffer + max (length l1) (length l2)) NUL) buffer)
               (\<lambda>(mem1, inner).
                  and_then (Some (parse_redirection_file_name mem1
                                    (buffer + max (length l1) (length l2) + 1)))
                    (\<lambda>(mem2, name).
                       Some (Inr (mem2,
                         if length l1 < length l2
                         then Redirection_Command inner name [O_RDONLY] 0
                         else Redirection_Command inner name [O_WRONLY, O_CREATE] 1))))"
  proof (cases "length l1 < length l2")
    case True
    then have "max (length l1) (length l2) = length l2" by simp
    then show ?thesis using True p2 by (simp add: create_redirection_command_def)
  next
    case False
    then have "max (length l1) (length l2) = length l1" by simp
    then show ?thesis using False p1 by (simp add: create_redirection_command_def)
  qed
next
  assume "length line \<le> n"
  then have "length line < Suc n" by simp
  from parse_command_refines[OF assms(1) this]
  show "\<exists>result. parse_command (Suc n) mem buffer = Some result" by blast
qed

theorem redirection_splits_at_later_symbol_witness:
  "holds (''cmd < in > out'' @ [NUL]) 0 ''cmd < in > out''
   \<and> CHR '';'' \<notin> set ''cmd < in > out'' \<and> CHR ''|'' \<notin> set ''cmd < in > out''
   \<and> ''cmd < in > out'' = ''cmd < in '' @ CHR ''>'' # '' out''
   \<and> CHR ''>'' \<notin> set '' out''
   \<and> ''cmd < in > out'' = ''cmd '' @ CHR ''<'' # '' in > out''
   \<and> CHR ''<'' \<notin> set '' in > out''
   \<and> length ''cmd < in > out'' \<le> 14
   \<and> max (length ''cmd < in '') (length ''cmd '') = 9
   \<and> parse_command (Suc 14) (''cmd < in > out'' @ [NUL]) 0
       = parse_redirection 14 (''cmd < in > out'' @ [NUL]) 0
           (0 + max (length ''cmd < in '') (length ''cmd ''))
   \<and> (\<exists>result. parse_command (Suc 14) (''cmd < in > out'' @ [NUL]) 0 = Some result)"
proof -
  have h: "holds (''cmd < in > out'' @ [NUL]) 0 ''cmd < in > out''"
    by (simp add: holds_def NUL_def)
  have s: "CHR '';'' \<notin> set ''cmd < in > out''" and p: "CHR ''|'' \<notin> set ''cmd < in > out''"
    by simp_all
  have e1: "''cmd < in > out'' = ''cmd < in '' @ CHR ''>'' # '' out''"
    and n1: "CHR ''>'' \<notin> set '' out''"
    and e2: "''cmd < in > out'' = ''cmd '' @ CHR ''<'' # '' in > out''"
    and n2: "CHR ''<'' \<notin> set '' in > out''"
    by simp_all
  have l: "length ''cmd < in > out'' \<le> (14::nat)" by simp
  have m: "max (length ''cmd < in '') (length ''cmd '') = (9::nat)" by simp
  note split = redirection_splits_at_later_symbol[OF h s p e1 n1 e2 n2, of 14]
  have 1: "parse_command (Suc 14) (''cmd < in > out'' @ [NUL]) 0
       = parse_redirection 14 (''cmd < in > out'' @ [NUL]) 0
           (0 + max (length ''cmd < in '') (length ''cmd ''))"
    by (rule split[THEN conjunct1])
  have 2: "\<exists>result. parse_command (Suc 14) (''cmd < in > out'' @ [NUL]) 0 = Some result"
    by (rule split[THEN conjunct2, THEN conjunct2, rule_format]) (rule l)
  show ?thesis
    by (intro conjI h s p e1 n1 e2 n2 l m 1 2)
qed

text \<open>
  C2, the claim as stated fails on the line \<^verbatim>\<open>cmd < in > out\<close>: the last \<^verbatim>\<open>>\<close> is at
  offset 9 and the last \<^verbatim>\<open><\<close> at offset 4. \<open>parse_command\<close> splits at offset 9, not at 4,
  and the outer command is the redirection of descriptor 1 to \<^verbatim>\<open>out\<close>.
\<close>

theorem dual_redirection_splits_at_larger_offset:
  "strrchr (''cmd < in > out'' @ [NUL]) 0 CHR ''>'' = Some 9
   \<and> strrchr (''cmd < in > out'' @ [NUL]) 0 CHR ''<'' = Some 4
   \<and> parse_command 3 (''cmd < in > out'' @ [NUL]) 0
       = parse_redirection 2 (''cmd < in > out'' @ [NUL]) 0 9
   \<and> parse_command 3 (''cmd < in > out'' @ [NUL]) 0
       \<noteq> parse_redirection 2 (''cmd < in > out'' @ [NUL]) 0 4
   \<and> parse_command 3 (''cmd < in > out'' @ [NUL]) 0
       = Some (Inr (''cmd'' @ [NUL, NUL] @ '' in'' @ [NUL, NUL] @ '' out'' @ [NUL],
           Redirection_Command
             (Redirection_Command
                (Execute_Command (Some 0 # replicate 15 None) []) 6 [O_RDONLY] 0)
             11 [O_WRONLY, O_CREATE] 1))"
proof (intro conjI)
  show "strrchr (''cmd < in > out'' @ [NUL]) 0 CHR ''>'' = Some 9" by code_simp
  show "strrchr (''cmd < in > out'' @ [NUL]) 0 CHR ''<'' = Some 4" by code_simp
  show "parse_command 3 (''cmd < in > out'' @ [NUL]) 0
       = parse_redirection 2 (''cmd < in > out'' @ [NUL]) 0 9" by code_simp
  show "parse_command 3 (''cmd < in > out'' @ [NUL]) 0
       \<noteq> parse_redirection 2 (''cmd < in > out'' @ [NUL]) 0 4" by code_simp
  show "parse_command 3 (''cmd < in > out'' @ [NUL]) 0
       = Some (Inr (''cmd'' @ [NUL, NUL] @ '' in'' @ [NUL, NUL] @ '' out'' @ [NUL],
           Redirection_Command
             (Redirection_Command
                (Execute_Command (Some 0 # replicate 15 None) []) 6 [O_RDONLY] 0)
             11 [O_WRONLY, O_CREATE] 1))" by code_simp
qed

text \<open>
  C3. The claim: a line of 20 tokens yields the first 16 as arguments, with no write
  outside the 16 slots of \<^verbatim>\<open>argv\<close>. On the line below the 16 slots do hold the first 16
  tokens, each terminated, but the loop has raised \<^verbatim>\<open>argi\<close> to 16 before it stores the
  start of the 17th token (offset 32) and tests \<^verbatim>\<open>argi < MAXIMUM_ARGUMENTS\<close> only
  afterwards: the store goes to \<^verbatim>\<open>argv[16]\<close>, past the end of the array.
\<close>

theorem twenty_tokens_store_past_argv:
  "parse_execute (''a b c d e f g h i j k l m n o p q r s t'' @ [NUL]) 0
   = ([CHR ''a'', NUL, CHR ''b'', NUL, CHR ''c'', NUL, CHR ''d'', NUL, CHR ''e'', NUL,
       CHR ''f'', NUL, CHR ''g'', NUL, CHR ''h'', NUL, CHR ''i'', NUL, CHR ''j'', NUL,
       CHR ''k'', NUL, CHR ''l'', NUL, CHR ''m'', NUL, CHR ''n'', NUL, CHR ''o'', NUL,
       CHR ''p'', NUL] @ ''q r s t'' @ [NUL],
      Execute_Command
        [Some 0, Some 2, Some 4, Some 6, Some 8, Some 10, Some 12, Some 14,
         Some 16, Some 18, Some 20, Some 22, Some 24, Some 26, Some 28, Some 30]
        [(16, Some 32)])"
  by code_simp

text \<open>
  C4. The claim: \<open>parse_redirection\<close> gives \<^verbatim>\<open><\<close> the read-only mode on descriptor 0 and
  \<^verbatim>\<open>>\<close> the write-create-truncate mode on descriptor 1. The mode the code passes for \<^verbatim>\<open>>\<close>
  is \<^verbatim>\<open>O_WRONLY | O_CREATE\<close>: no truncation flag occurs in the shell. As amended: the
  command that \<open>parse_redirection\<close> returns at a \<^verbatim>\<open><\<close> is a redirection command with mode
  \<^verbatim>\<open>O_RDONLY\<close> and descriptor 0, and the one it returns at a \<^verbatim>\<open>>\<close> is a redirection
  command with mode \<^verbatim>\<open>O_WRONLY | O_CREATE\<close> and descriptor 1. The call does return: for
  every text held in the buffer and split at one of its characters, with a bound above
  the length of the text before the split, \<open>parse_redirection\<close> gives a result, and where
  the text before the split holds no operator and the text after it holds a file name
  the result is a command.
\<close>

theorem redirection_mode_and_descriptor:
  "(\<forall>mem' command.
       parse_redirection n mem buffer p_split = Some (Inr (mem', command)) \<longrightarrow>
         (peek mem p_split = CHR ''<'' \<longrightarrow>
            (\<exists>inner name. command = Redirection_Command inner name [O_RDONLY] 0))
       \<and> (peek mem p_split = CHR ''>'' \<longrightarrow>
            (\<exists>inner name. command = Redirection_Command inner name [O_WRONLY, O_CREATE] 1)))
   \<and> (\<forall>l c r.
       holds mem buffer (l @ c # r) \<and> p_split = buffer + length l \<and> length l < n \<longrightarrow>
         peek mem p_split = c
       \<and> (\<exists>result. parse_redirection n mem buffer p_split = Some result)
       \<and> (plain l \<and> tokens r \<noteq> [] \<longrightarrow>
            (\<exists>mem' command.
               parse_redirection n mem buffer p_split = Some (Inr (mem', command)))))"
proof (intro conjI allI impI)
  fix mem' command
  assume "parse_redirection n mem buffer p_split = Some (Inr (mem', command))"
    and "peek mem p_split = CHR ''<''"
  then show "\<exists>inner name. command = Redirection_Command inner name [O_RDONLY] 0"
    by (rule parse_redirection_input)
next
  fix mem' command
  assume "parse_redirection n mem buffer p_split = Some (Inr (mem', command))"
    and "peek mem p_split = CHR ''>''"
  then show "\<exists>inner name. command = Redirection_Command inner name [O_WRONLY, O_CREATE] 1"
    by (rule parse_redirection_output)
next
  fix l c r
  assume a: "holds mem buffer (l @ c # r) \<and> p_split = buffer + length l \<and> length l < n"
  then show "peek mem p_split = c"
    using holds_peek[of mem buffer "l @ c # r" "length l"] by simp
next
  fix l c r
  assume a: "holds mem buffer (l @ c # r) \<and> p_split = buffer + length l \<and> length l < n"
  then show "\<exists>result. parse_redirection n mem buffer p_split = Some result"
    using parse_redirection_returns[of mem buffer l c r n] by blast
next
  fix l c r
  assume a: "holds mem buffer (l @ c # r) \<and> p_split = buffer + length l \<and> length l < n"
    and b: "plain l \<and> tokens r \<noteq> []"
  then show "\<exists>mem' command.
      parse_redirection n mem buffer p_split = Some (Inr (mem', command))"
    using parse_redirection_returns[of mem buffer l c r n] by blast
qed

theorem redirection_mode_and_descriptor_witness:
  "holds (''a > f'' @ [NUL]) 0 (''a '' @ CHR ''>'' # '' f'')
   \<and> 2 = 0 + length ''a '' \<and> length ''a '' < 3
   \<and> plain ''a '' \<and> tokens '' f'' \<noteq> []
   \<and> peek (''a > f'' @ [NUL]) 2 = CHR ''>''
   \<and> (\<exists>result. parse_redirection 3 (''a > f'' @ [NUL]) 0 2 = Some result)
   \<and> (\<exists>mem' command. parse_redirection 3 (''a > f'' @ [NUL]) 0 2 = Some (Inr (mem', command)))
   \<and> parse_redirection 3 (''a > f'' @ [NUL]) 0 2
     = Some (Inr ([CHR ''a'', NUL, NUL, CHR '' '', CHR ''f'', NUL],
          Redirection_Command
            (Execute_Command (Some 0 # replicate 15 None) []) 4 [O_WRONLY, O_CREATE] 1))
   \<and> (\<exists>inner name. Redirection_Command
            (Execute_Command (Some 0 # replicate 15 None) []) 4 [O_WRONLY, O_CREATE] 1
          = Redirection_Command inner name [O_WRONLY, O_CREATE] 1)
   \<and> parse_redirection 3 (''a < f'' @ [NUL]) 0 2
     = Some (Inr ([CHR ''a'', NUL, NUL, CHR '' '', CHR ''f'', NUL],
          Redirection_Command
            (Execute_Command (Some 0 # replicate 15 None) []) 4 [O_RDONLY] 0))
   \<and> peek (''a < f'' @ [NUL]) 2 = CHR ''<''
   \<and> (\<exists>inner name. Redirection_Command
            (Execute_Command (Some 0 # replicate 15 None) []) 4 [O_RDONLY] 0
          = Redirection_Command inner name [O_RDONLY] 0)"
proof -
  have h: "holds (''a > f'' @ [NUL]) 0 (''a '' @ CHR ''>'' # '' f'')"
    by (simp add: holds_def NUL_def)
  have e: "2 = 0 + length ''a ''" and l: "length ''a '' < (3::nat)" by simp_all
  have p: "plain ''a ''" by (simp add: plain_def)
  have "tokens '' f'' = [''f'']" by code_simp
  then have t: "tokens '' f'' \<noteq> []" by simp
  have a: "parse_redirection 3 (''a > f'' @ [NUL]) 0 2
     = Some (Inr ([CHR ''a'', NUL, NUL, CHR '' '', CHR ''f'', NUL],
          Redirection_Command
            (Execute_Command (Some 0 # replicate 15 None) []) 4 [O_WRONLY, O_CREATE] 1))"
    by code_simp
  have c: "parse_redirection 3 (''a < f'' @ [NUL]) 0 2
     = Some (Inr ([CHR ''a'', NUL, NUL, CHR '' '', CHR ''f'', NUL],
          Redirection_Command
            (Execute_Command (Some 0 # replicate 15 None) []) 4 [O_RDONLY] 0))"
    by code_simp
  have d: "peek (''a < f'' @ [NUL]) 2 = CHR ''<''" by code_simp
  note out = redirection_mode_and_descriptor[of 3 "''a > f'' @ [NUL]" 0 2]
  note inp = redirection_mode_and_descriptor[of 3 "''a < f'' @ [NUL]" 0 2]
  note held = out[THEN conjunct2, rule_format, of "''a ''" "CHR ''>''" "'' f''",
                  OF conjI[OF h conjI[OF e l]]]
  have 1: "peek (''a > f'' @ [NUL]) 2 = CHR ''>''"
    by (rule held[THEN conjunct1])
  have 2: "\<exists>result. parse_redirection 3 (''a > f'' @ [NUL]) 0 2 = Some result"
    by (rule held[THEN conjunct2, THEN conjunct1])
  have 3: "\<exists>mem' command. parse_redirection 3 (''a > f'' @ [NUL]) 0 2 = Some (Inr (mem', command))"
    by (rule held[THEN conjunct2, THEN conjunct2, rule_format]) (intro conjI p t)
  have 4: "\<exists>inner name. Redirection_Command
            (Execute_Command (Some 0 # replicate 15 None) []) 4 [O_WRONLY, O_CREATE] 1
          = Redirection_Command inner name [O_WRONLY, O_CREATE] 1"
    by (rule out[THEN conjunct1, rule_format, OF a, THEN conjunct2, rule_format, OF 1])
  have 5: "\<exists>inner name. Redirection_Command
            (Execute_Command (Some 0 # replicate 15 None) []) 4 [O_RDONLY] 0
          = Redirection_Command inner name [O_RDONLY] 0"
    by (rule inp[THEN conjunct1, rule_format, OF c, THEN conjunct1, rule_format, OF d])
  show ?thesis
    by (intro conjI h e l p t 1 2 3 a 4 c d 5)
qed

text \<open>
  C4, the claim as stated fails on the line \<^verbatim>\<open>a > f\<close>: the mode of the redirection
  command is \<^verbatim>\<open>O_WRONLY | O_CREATE\<close>, without \<^verbatim>\<open>O_TRUNC\<close>.
\<close>

theorem output_redirection_has_no_truncate_flag:
  "parse_command 2 (''a > f'' @ [NUL]) 0
     = Some (Inr ([CHR ''a'', NUL, NUL, CHR '' '', CHR ''f'', NUL],
          Redirection_Command
            (Execute_Command (Some 0 # replicate 15 None) []) 4 [O_WRONLY, O_CREATE] 1))
   \<and> O_TRUNC \<notin> set [O_WRONLY, O_CREATE]
   \<and> [O_WRONLY, O_CREATE] \<noteq> [O_WRONLY, O_CREATE, O_TRUNC]"
proof -
  have "parse_command 2 (''a > f'' @ [NUL]) 0
     = Some (Inr ([CHR ''a'', NUL, NUL, CHR '' '', CHR ''f'', NUL],
          Redirection_Command
            (Execute_Command (Some 0 # replicate 15 None) []) 4 [O_WRONLY, O_CREATE] 1))"
    by code_simp
  then show ?thesis by simp
qed

text \<open>
  C5. On every line with a \<^verbatim>\<open>;\<close>, \<open>parse_command\<close> splits at the first one: it is
  \<open>parse_list\<close> at that position. Where the text before it and the two texts around the
  next \<^verbatim>\<open>;\<close> hold no operator, as in \<^verbatim>\<open>a ; b ; c\<close>, the result is the list command of the
  first text with the list command of the other two, each an execute command of the
  tokens of its text.
\<close>

theorem list_splits_at_first_semicolon:
  assumes "holds mem buffer (l @ CHR '';'' # r)" "CHR '';'' \<notin> set l"
  shows "parse_command (Suc n) mem buffer = parse_list n mem buffer (buffer + length l)
       \<and> (\<forall>b c. r = b @ CHR '';'' # c \<and> plain l \<and> plain b \<and> plain c
                \<and> length (l @ CHR '';'' # r) \<le> n \<longrightarrow>
            (\<exists>mem' command.
               parse_command (Suc n) mem buffer = Some (Inr (mem', command))
             \<and> tree_of mem' command
                 = Some (Sequence (Execute (take MAXIMUM_ARGUMENTS (tokens l)))
                          (Sequence (Execute (take MAXIMUM_ARGUMENTS (tokens b)))
                                    (Execute (take MAXIMUM_ARGUMENTS (tokens c)))))))"
proof (intro conjI allI impI)
  show "parse_command (Suc n) mem buffer = parse_list n mem buffer (buffer + length l)"
    using parse_command_dispatch[OF assms(1), of n] find_first_append[OF assms(2), of r]
    by simp
next
  fix b c
  assume a: "r = b @ CHR '';'' # c \<and> plain l \<and> plain b \<and> plain c
             \<and> length (l @ CHR '';'' # r) \<le> n"
  then have "parse_line (b @ CHR '';'' # c)
        = Inr (Sequence (Execute (take MAXIMUM_ARGUMENTS (tokens b)))
                        (Execute (take MAXIMUM_ARGUMENTS (tokens c))))"
    by (simp add: parse_line_list_append plain_def[of b] parse_line_plain join_def)
  then have "parse_line (l @ CHR '';'' # r)
        = Inr (Sequence (Execute (take MAXIMUM_ARGUMENTS (tokens l)))
                 (Sequence (Execute (take MAXIMUM_ARGUMENTS (tokens b)))
                           (Execute (take MAXIMUM_ARGUMENTS (tokens c)))))"
    using a assms(2) by (simp add: parse_line_list_append parse_line_plain join_def)
  moreover have "length (l @ CHR '';'' # r) < Suc n" using a by linarith
  ultimately show "\<exists>mem' command.
               parse_command (Suc n) mem buffer = Some (Inr (mem', command))
             \<and> tree_of mem' command
                 = Some (Sequence (Execute (take MAXIMUM_ARGUMENTS (tokens l)))
                          (Sequence (Execute (take MAXIMUM_ARGUMENTS (tokens b)))
                                    (Execute (take MAXIMUM_ARGUMENTS (tokens c)))))"
    using parse_command_tree[OF assms(1)] by blast
qed

theorem list_splits_at_first_semicolon_witness:
  "holds (''a ; b ; c'' @ [NUL]) 0 (''a '' @ CHR '';'' # '' b ; c'')
   \<and> CHR '';'' \<notin> set ''a ''
   \<and> parse_command (Suc 9) (''a ; b ; c'' @ [NUL]) 0
       = parse_list 9 (''a ; b ; c'' @ [NUL]) 0 (0 + length ''a '')
   \<and> '' b ; c'' = '' b '' @ CHR '';'' # '' c''
   \<and> plain ''a '' \<and> plain '' b '' \<and> plain '' c''
   \<and> length (''a '' @ CHR '';'' # '' b ; c'') \<le> 9
   \<and> tokens ''a '' = [''a''] \<and> tokens '' b '' = [''b''] \<and> tokens '' c'' = [''c'']
   \<and> (\<exists>mem' command.
         parse_command (Suc 9) (''a ; b ; c'' @ [NUL]) 0 = Some (Inr (mem', command))
       \<and> tree_of mem' command
           = Some (Sequence (Execute (take MAXIMUM_ARGUMENTS (tokens ''a '')))
                    (Sequence (Execute (take MAXIMUM_ARGUMENTS (tokens '' b '')))
                              (Execute (take MAXIMUM_ARGUMENTS (tokens '' c''))))))"
proof -
  have h: "holds (''a ; b ; c'' @ [NUL]) 0 (''a '' @ CHR '';'' # '' b ; c'')"
    by (simp add: holds_def NUL_def)
  have s: "CHR '';'' \<notin> set ''a ''" by simp
  have r: "'' b ; c'' = '' b '' @ CHR '';'' # '' c''" by simp
  have p: "plain ''a ''" "plain '' b ''" "plain '' c''" by (simp_all add: plain_def)
  have t: "tokens ''a '' = [''a'']" "tokens '' b '' = [''b'']" "tokens '' c'' = [''c'']"
    by code_simp+
  have l: "length (''a '' @ CHR '';'' # '' b ; c'') \<le> (9::nat)" by simp
  note split = list_splits_at_first_semicolon[OF h s, of 9]
  have 1: "parse_command (Suc 9) (''a ; b ; c'' @ [NUL]) 0
             = parse_list 9 (''a ; b ; c'' @ [NUL]) 0 (0 + length ''a '')"
    by (rule split[THEN conjunct1])
  have 3: "\<exists>mem' command.
         parse_command (Suc 9) (''a ; b ; c'' @ [NUL]) 0 = Some (Inr (mem', command))
       \<and> tree_of mem' command
           = Some (Sequence (Execute (take MAXIMUM_ARGUMENTS (tokens ''a '')))
                    (Sequence (Execute (take MAXIMUM_ARGUMENTS (tokens '' b '')))
                              (Execute (take MAXIMUM_ARGUMENTS (tokens '' c'')))))"
    by (rule split[THEN conjunct2, rule_format, of "'' b ''" "'' c''"])
       (intro conjI r p l)
  show ?thesis
    by (intro conjI h s 1 r p l t 3)
qed

text \<open>
  C6. For a line with at most \<^verbatim>\<open>MAXIMUM_ARGUMENTS\<close> tokens, \<open>parse_execute\<close> returns an execute
  command whose first slots point to the tokens of the line in their order, each standing
  in the buffer with a NUL of its own after it, whose other slots are \<^verbatim>\<open>NULL\<close>, and with
  no store outside the array; the strings of the occupied slots are the tokens. Where the
  line holds no operator this is what \<open>parse_command\<close> returns. (By \<open>tokens_unwords\<close>, the
  tokens of words written one after the other, a blank before each, are these words.)
\<close>

theorem execute_line_round_trip:
  assumes "holds mem buffer line" "length (tokens line) \<le> MAXIMUM_ARGUMENTS"
  shows "\<exists>mem' av. parse_execute mem buffer = (mem', Execute_Command av [])
       \<and> (plain line \<longrightarrow>
            parse_command (Suc n) mem buffer = Some (Inr (mem', Execute_Command av [])))
       \<and> length av = MAXIMUM_ARGUMENTS
       \<and> list_all2 (\<lambda>p t. \<exists>q. p = Some q \<and> holds mem' q t)
            (take (length (tokens line)) av) (tokens line)
       \<and> drop (length (tokens line)) av
           = replicate (MAXIMUM_ARGUMENTS - length (tokens line)) None
       \<and> arguments mem' av = tokens line"
proof -
  let ?ps = "take MAXIMUM_ARGUMENTS (token_starts buffer line)"
  let ?k = "MAXIMUM_ARGUMENTS - length (tokens line)"
  from parse_execute_arguments[OF assms(1)] assms(2) obtain mem' where
    pe: "parse_execute mem buffer = (mem', Execute_Command (map Some ?ps @ replicate ?k None) [])"
    and all: "list_all2 (holds mem') ?ps (tokens line)"
    by auto
  have len: "length ?ps = length (tokens line)"
    using all by (rule list_all2_lengthD)
  have "list_all2 (\<lambda>p t. \<exists>q. p = Some q \<and> holds mem' q t) (map Some ?ps) (tokens line)"
    using all by (simp add: list_all2_map1)
  moreover have "arguments mem' (map Some ?ps @ replicate ?k None) = tokens line"
    using all by (rule arguments_holds)
  moreover have "plain line \<longrightarrow> parse_command (Suc n) mem buffer
        = Some (Inr (mem', Execute_Command (map Some ?ps @ replicate ?k None) []))"
    using parse_command_plain[OF assms(1), of n] pe by simp
  ultimately show ?thesis
    using pe len assms(2) by (intro exI[of _ mem'] exI[of _ "map Some ?ps @ replicate ?k None"]) simp
qed

theorem execute_line_round_trip_witness:
  "holds (''ls  -l x '' @ [NUL]) 0 ''ls  -l x ''
   \<and> length (tokens ''ls  -l x '') \<le> MAXIMUM_ARGUMENTS
   \<and> tokens ''ls  -l x '' = [''ls'', ''-l'', ''x'']
   \<and> plain ''ls  -l x ''
   \<and> (\<exists>mem' av. parse_execute (''ls  -l x '' @ [NUL]) 0 = (mem', Execute_Command av [])
        \<and> parse_command (Suc 0) (''ls  -l x '' @ [NUL]) 0
            = Some (Inr (mem', Execute_Command av []))
        \<and> length av = MAXIMUM_ARGUMENTS
        \<and> list_all2 (\<lambda>p t. \<exists>q. p = Some q \<and> holds mem' q t)
             (take (length (tokens ''ls  -l x '')) av) (tokens ''ls  -l x '')
        \<and> drop (length (tokens ''ls  -l x '')) av
            = replicate (MAXIMUM_ARGUMENTS - length (tokens ''ls  -l x '')) None
        \<and> arguments mem' av = tokens ''ls  -l x '')"
proof -
  have h: "holds (''ls  -l x '' @ [NUL]) 0 ''ls  -l x ''"
    by (simp add: holds_def NUL_def)
  have t: "tokens ''ls  -l x '' = [''ls'', ''-l'', ''x'']"
    by code_simp
  have l: "length (tokens ''ls  -l x '') \<le> MAXIMUM_ARGUMENTS"
    by (simp add: t MAXIMUM_ARGUMENTS_def)
  have p: "plain ''ls  -l x ''" by (simp add: plain_def)
  from execute_line_round_trip[OF h l, of 0] p
  have "\<exists>mem' av. parse_execute (''ls  -l x '' @ [NUL]) 0 = (mem', Execute_Command av [])
        \<and> parse_command (Suc 0) (''ls  -l x '' @ [NUL]) 0
            = Some (Inr (mem', Execute_Command av []))
        \<and> length av = MAXIMUM_ARGUMENTS
        \<and> list_all2 (\<lambda>p t. \<exists>q. p = Some q \<and> holds mem' q t)
             (take (length (tokens ''ls  -l x '')) av) (tokens ''ls  -l x '')
        \<and> drop (length (tokens ''ls  -l x '')) av
            = replicate (MAXIMUM_ARGUMENTS - length (tokens ''ls  -l x '')) None
        \<and> arguments mem' av = tokens ''ls  -l x ''"
    by blast
  then show ?thesis
    by (intro conjI h l t p)
qed

text \<open>
  C7. For every line of whitespace characters only, \<open>parse_command\<close> returns an execute
  command with no argument (\<^verbatim>\<open>argv[0]\<close> is \<^verbatim>\<open>NULL\<close>) and leaves the buffer as it was, and
  \<open>run_command\<close> on that command is \<^verbatim>\<open>exit(1)\<close> and nothing else: no \<^verbatim>\<open>exec\<close>.
\<close>

theorem whitespace_line_exits_at_once:
  assumes "holds mem buffer line" "list_all is_whitespace line"
  shows "parse_command (Suc n) mem buffer
           = Some (Inr (mem, Execute_Command (replicate MAXIMUM_ARGUMENTS None) []))
       \<and> argv (Execute_Command (replicate MAXIMUM_ARGUMENTS None) []) ! 0 = None
       \<and> run_command mem (Execute_Command (replicate MAXIMUM_ARGUMENTS None) []) = Exit 1"
proof -
  have ops: "CHR '';'' \<notin> set line" "CHR ''|'' \<notin> set line"
            "CHR ''>'' \<notin> set line" "CHR ''<'' \<notin> set line"
    using assms(2) whitespace_not_operator by (auto simp: list_all_iff)
  then have "find_first line CHR '';'' = None" "find_first line CHR ''|'' = None"
    "last_redirection line = None"
    by (simp_all add: find_first_absent find_last_absent last_redirection_def)
  then have "parse_command (Suc n) mem buffer = Some (Inr (parse_execute mem buffer))"
    using parse_command_dispatch[OF assms(1), of n] by simp
  then show ?thesis
    using whitespace_line_execute[OF assms]
    by (simp add: create_execute_command_def MAXIMUM_ARGUMENTS_def)
qed

theorem whitespace_line_exits_at_once_witness:
  "holds ([CHR '' '', CHR 0x09, CHR '' '', NUL]) 0 [CHR '' '', CHR 0x09, CHR '' '']
   \<and> list_all is_whitespace [CHR '' '', CHR 0x09, CHR '' '']
   \<and> parse_command 1 [CHR '' '', CHR 0x09, CHR '' '', NUL] 0
       = Some (Inr ([CHR '' '', CHR 0x09, CHR '' '', NUL],
                    Execute_Command (replicate MAXIMUM_ARGUMENTS None) []))
   \<and> run_command [CHR '' '', CHR 0x09, CHR '' '', NUL]
         (Execute_Command (replicate MAXIMUM_ARGUMENTS None) []) = Exit 1"
proof -
  have h: "holds ([CHR '' '', CHR 0x09, CHR '' '', NUL]) 0 [CHR '' '', CHR 0x09, CHR '' '']"
    by (simp add: holds_def NUL_def)
  have w: "list_all is_whitespace [CHR '' '', CHR 0x09, CHR '' '']"
    by (simp add: is_whitespace_iff)
  show ?thesis
    using whitespace_line_exits_at_once[OF h w, of 0] h w by simp
qed

text \<open>
  C8. For every redirection whose text after the symbol holds whitespace only,
  \<open>parse_redirection\<close> ends the process: \<^verbatim>\<open>Failed to parse filename for redirection\<close> and a
  newline go to the error stream and the process exits with status 1. No command is
  returned, and where the line is such a redirection of a text without operators the
  child of \<^verbatim>\<open>main\<close> is this write and this exit only: it runs no command and forks nothing.
\<close>

theorem empty_file_name_is_fatal:
  assumes "holds mem buffer (l @ c # w)" "list_all is_whitespace w" "length l < n"
  shows "parse_redirection n mem buffer (buffer + length l)
           = Some (Inl (error ''Failed to parse filename for redirection''))
       \<and> error ''Failed to parse filename for redirection''
           = Write_Stderr (''Failed to parse filename for redirection'' @ [CHR 0x0A]) (Exit 1)
       \<and> (buffer = 0 \<and> plain l \<and> (c = CHR ''>'' \<or> c = CHR ''<'') \<longrightarrow>
            shell_child (Suc n) mem
              = Some (Write_Stderr (''Failed to parse filename for redirection'' @ [CHR 0x0A])
                        (Exit 1)))"
proof -
  define p where "p = buffer + length l"
  define mem1 where "mem1 = poke mem p NUL"
  have h1: "holds mem1 buffer l"
    using holds_poke_left[OF assms(1)] by (simp add: mem1_def p_def)
  have hw: "holds mem1 (Suc p) w"
    using holds_poke_right[OF assms(1)] by (simp add: mem1_def p_def)
  from parse_command_refines[OF h1 assms(3)] obtain res where
    res: "parse_command n mem1 buffer = Some res" and ref: "refines mem1 buffer l res"
    by blast
  have fatal: "parse_redirection n mem buffer p
        = Some (Inl (error ''Failed to parse filename for redirection''))"
  proof (cases res)
    case (Inl halt)
    then have "halt = error ''Failed to parse filename for redirection''"
      using ref parse_line_halt by (simp add: refines_Inl)
    then show ?thesis
      using res Inl by (simp add: and_then_simps mem1_def[symmetric])
  next
    case (Inr pr)
    obtain mem2 x where pr: "pr = (mem2, x)" by (cases pr)
    then have "same_outside mem1 mem2 buffer (buffer + length l)"
      using ref Inr by (simp add: refines_Inr)
    then have "holds mem2 (Suc p) w"
      by (rule holds_same_after[OF _ _ hw]) (simp add: p_def)
    then have "parse_redirection_file_name mem2 (Suc p)
               = Inl (error ''Failed to parse filename for redirection'')"
      using tokens_whitespace[OF assms(2)] by (rule parse_redirection_file_name_fails)
    then show ?thesis
      using res Inr pr by (simp add: and_then_simps mem1_def[symmetric])
  qed
  have "shell_child (Suc n) mem
          = Some (Write_Stderr (''Failed to parse filename for redirection'' @ [CHR 0x0A])
                    (Exit 1))"
    if a: "buffer = 0 \<and> plain l \<and> (c = CHR ''>'' \<or> c = CHR ''<'')"
  proof -
    have w: "CHR '';'' \<notin> set w" "CHR ''|'' \<notin> set w" "CHR ''>'' \<notin> set w" "CHR ''<'' \<notin> set w"
      using assms(2) whitespace_not_operator by (auto simp: list_all_iff)
    have "find_first (l @ c # w) CHR '';'' = None" "find_first (l @ c # w) CHR ''|'' = None"
      using a w by (auto simp: plain_def find_first_None)
    moreover have "last_redirection (l @ c # w) = Some (length l)"
      using a w by (intro last_redirection_append) simp_all
    ultimately have "parse_command (Suc n) mem buffer
        = parse_redirection n mem buffer (buffer + length l)"
      using parse_command_dispatch[OF assms(1), of n] by simp
    then show ?thesis
      using fatal a by (simp add: shell_child_def p_def error_def)
  qed
  then show ?thesis using fatal by (simp add: p_def error_def)
qed

theorem empty_file_name_is_fatal_witness:
  "holds (''cmd > '' @ [NUL]) 0 (''cmd '' @ CHR ''>'' # '' '')
   \<and> list_all is_whitespace '' ''
   \<and> length ''cmd '' < 5
   \<and> plain ''cmd ''
   \<and> parse_redirection 5 (''cmd > '' @ [NUL]) 0 (0 + length ''cmd '')
       = Some (Inl (error ''Failed to parse filename for redirection''))
   \<and> shell_child (Suc 5) (''cmd > '' @ [NUL])
       = Some (Write_Stderr (''Failed to parse filename for redirection'' @ [CHR 0x0A]) (Exit 1))"
proof -
  have h: "holds (''cmd > '' @ [NUL]) 0 (''cmd '' @ CHR ''>'' # '' '')"
    by (simp add: holds_def NUL_def)
  have w: "list_all is_whitespace '' ''"
    by (simp add: is_whitespace_iff)
  have l: "length ''cmd '' < (5::nat)" by simp
  have p: "plain ''cmd ''" by (simp add: plain_def)
  note fatal = empty_file_name_is_fatal[OF h w l]
  have 1: "parse_redirection 5 (''cmd > '' @ [NUL]) 0 (0 + length ''cmd '')
       = Some (Inl (error ''Failed to parse filename for redirection''))"
    by (rule fatal[THEN conjunct1])
  have 2: "shell_child (Suc 5) (''cmd > '' @ [NUL])
       = Some (Write_Stderr (''Failed to parse filename for redirection'' @ [CHR 0x0A]) (Exit 1))"
    by (rule fatal[THEN conjunct2, THEN conjunct2, rule_format]) (simp add: p)
  show ?thesis
    by (intro conjI h w l p 1 2)
qed

text \<open>
  C9. For every line \<^verbatim>\<open>a | b > f\<close>, where \<open>a\<close>, \<open>b\<close> and \<open>f\<close> hold no operator and \<open>f\<close> holds a
  file name, \<open>parse_command\<close> returns the pipe command of the execute command of \<open>a\<close> with
  the redirection command of the execute command of \<open>b\<close> to the first token of \<open>f\<close>, in
  mode \<^verbatim>\<open>O_WRONLY | O_CREATE\<close> on descriptor 1: the split at \<^verbatim>\<open>|\<close> comes first.
\<close>

theorem pipe_before_redirection:
  assumes "holds mem buffer (a @ CHR ''|'' # b @ CHR ''>'' # f)"
    "plain a" "plain b" "plain f" "tokens f \<noteq> []"
    "length (a @ CHR ''|'' # b @ CHR ''>'' # f) < n"
  shows "\<exists>mem' command. parse_command n mem buffer = Some (Inr (mem', command))
       \<and> tree_of mem' command
           = Some (Pipeline (Execute (take MAXIMUM_ARGUMENTS (tokens a)))
                    (Redirect (Execute (take MAXIMUM_ARGUMENTS (tokens b))) (hd (tokens f))
                       [O_WRONLY, O_CREATE] 1))"
proof -
  have "parse_line (b @ CHR ''>'' # f)
        = redirect CHR ''>'' (parse_line b) (tokens f)"
    using assms(3,4) by (intro parse_line_redirection_append) (auto simp: plain_def)
  then have right: "parse_line (b @ CHR ''>'' # f)
        = Inr (Redirect (Execute (take MAXIMUM_ARGUMENTS (tokens b))) (hd (tokens f))
                 [O_WRONLY, O_CREATE] 1)"
    using assms(3,5) by (cases "tokens f") (simp_all add: parse_line_plain redirect_def)
  have "parse_line (a @ CHR ''|'' # b @ CHR ''>'' # f)
        = join Pipeline (parse_line a) (parse_line (b @ CHR ''>'' # f))"
    using assms(2,3,4) by (intro parse_line_pipe_append) (auto simp: plain_def)
  then have "parse_line (a @ CHR ''|'' # b @ CHR ''>'' # f)
        = Inr (Pipeline (Execute (take MAXIMUM_ARGUMENTS (tokens a)))
                 (Redirect (Execute (take MAXIMUM_ARGUMENTS (tokens b))) (hd (tokens f))
                    [O_WRONLY, O_CREATE] 1))"
    using assms(2) right by (simp add: parse_line_plain join_def)
  with assms(1,6) show ?thesis by (rule parse_command_tree)
qed

theorem pipe_before_redirection_witness:
  "holds (''a | b > f'' @ [NUL]) 0 (''a '' @ CHR ''|'' # '' b '' @ CHR ''>'' # '' f'')
   \<and> plain ''a '' \<and> plain '' b '' \<and> plain '' f'' \<and> tokens '' f'' \<noteq> []
   \<and> length (''a '' @ CHR ''|'' # '' b '' @ CHR ''>'' # '' f'') < 10
   \<and> tokens ''a '' = [''a''] \<and> tokens '' b '' = [''b''] \<and> tokens '' f'' = [''f'']
   \<and> (\<exists>mem' command. parse_command 10 (''a | b > f'' @ [NUL]) 0 = Some (Inr (mem', command))
       \<and> tree_of mem' command
           = Some (Pipeline (Execute (take MAXIMUM_ARGUMENTS (tokens ''a '')))
                    (Redirect (Execute (take MAXIMUM_ARGUMENTS (tokens '' b '')))
                       (hd (tokens '' f'')) [O_WRONLY, O_CREATE] 1)))"
proof -
  have h: "holds (''a | b > f'' @ [NUL]) 0 (''a '' @ CHR ''|'' # '' b '' @ CHR ''>'' # '' f'')"
    by (simp add: holds_def NUL_def)
  have p: "plain ''a ''" "plain '' b ''" "plain '' f''" by (simp_all add: plain_def)
  have t: "tokens ''a '' = [''a'']" "tokens '' b '' = [''b'']" "tokens '' f'' = [''f'']"
    by code_simp+
  have f: "tokens '' f'' \<noteq> []" by (simp add: t)
  have l: "length (''a '' @ CHR ''|'' # '' b '' @ CHR ''>'' # '' f'') < (10::nat)" by simp
  show ?thesis
    using pipe_before_redirection[OF h p f l] h p f l t by blast
qed

text \<open>
  C10. For every line, the slots of the execute command that \<open>parse_execute\<close> returns are
  \<open>k\<close> pointers followed by \<^verbatim>\<open>NULL\<close>s only, and each of the \<open>k\<close> pointers points to a string
  that is not empty and holds no whitespace character (by \<open>is_whitespace_iff\<close>: no space,
  tab, carriage return, newline or vertical tab).
\<close>

theorem arguments_are_words:
  assumes "holds mem buffer line"
  shows "\<exists>mem' av ov k. parse_execute mem buffer = (mem', Execute_Command av ov)
       \<and> length av = MAXIMUM_ARGUMENTS \<and> k \<le> MAXIMUM_ARGUMENTS
       \<and> list_all (\<lambda>p. \<exists>q. p = Some q \<and> cstring mem' q \<noteq> []
                        \<and> list_all (\<lambda>c. \<not> is_whitespace c) (cstring mem' q))
            (take k av)
       \<and> drop k av = replicate (MAXIMUM_ARGUMENTS - k) None"
proof -
  let ?ps = "take MAXIMUM_ARGUMENTS (token_starts buffer line)"
  let ?ts = "take MAXIMUM_ARGUMENTS (tokens line)"
  let ?k = "MAXIMUM_ARGUMENTS - length (tokens line)"
  let ?av = "map Some ?ps @ replicate ?k None"
  from parse_execute_arguments[OF assms] obtain mem' ov where
    pe: "parse_execute mem buffer = (mem', Execute_Command ?av ov)"
    and all: "list_all2 (holds mem') ?ps ?ts"
    by blast
  have len: "length ?ps = min (length (tokens line)) MAXIMUM_ARGUMENTS"
    by (simp add: length_token_starts)
  have "list_all (\<lambda>q. cstring mem' q \<noteq> []
                     \<and> list_all (\<lambda>c. \<not> is_whitespace c) (cstring mem' q)) ?ps"
    using all
  proof (rule list_all2_left)
    fix q t assume "holds mem' q t" "t \<in> set ?ts"
    then have "cstring mem' q = t" "t \<in> set (tokens line)"
      by (auto simp: holds_cstring dest: in_set_takeD)
    then show "cstring mem' q \<noteq> [] \<and> list_all (\<lambda>c. \<not> is_whitespace c) (cstring mem' q)"
      using tokens_wellformed by simp
  qed
  then have "list_all (\<lambda>p. \<exists>q. p = Some q \<and> cstring mem' q \<noteq> []
                        \<and> list_all (\<lambda>c. \<not> is_whitespace c) (cstring mem' q))
            (map Some ?ps)"
    by (simp add: list_all_iff)
  then show ?thesis
    using pe len
    by (intro exI[of _ mem'] exI[of _ ?av] exI[of _ ov] exI[of _ "length ?ps"]) auto
qed

theorem arguments_are_words_witness:
  "holds (''  cat a.txt  b.txt'' @ [NUL]) 0 ''  cat a.txt  b.txt''
   \<and> (\<exists>mem' av ov k. parse_execute (''  cat a.txt  b.txt'' @ [NUL]) 0
                        = (mem', Execute_Command av ov)
       \<and> length av = MAXIMUM_ARGUMENTS \<and> k \<le> MAXIMUM_ARGUMENTS
       \<and> list_all (\<lambda>p. \<exists>q. p = Some q \<and> cstring mem' q \<noteq> []
                        \<and> list_all (\<lambda>c. \<not> is_whitespace c) (cstring mem' q))
            (take k av)
       \<and> drop k av = replicate (MAXIMUM_ARGUMENTS - k) None)"
proof -
  have h: "holds (''  cat a.txt  b.txt'' @ [NUL]) 0 ''  cat a.txt  b.txt''"
    by (simp add: holds_def NUL_def)
  show ?thesis
    using arguments_are_words[OF h] h by simp
qed

end
